theory Spec2Isabelle
  imports Main
begin

section \<open>Identity: roles, account status, users\<close>

text \<open>
  Timestamps are integers (microseconds since the epoch, the resolution of a Python
  \<^verbatim>\<open>datetime\<close>); primary keys (UUIDs in the source) are natural numbers.
  Every \<^verbatim>\<open>timezone.now()\<close> read inside one operation is the operation's
  parameter \<open>now\<close>.
\<close>

type_synonym timestamp = int
type_synonym uuid = nat

text \<open>\<^verbatim>\<open>class UserRole\<close>: \<^verbatim>\<open>JANMITRA\<close> is an alias of \<^verbatim>\<open>LEVEL_3\<close>.\<close>

datatype user_role = LEVEL_0 | LEVEL_1 | LEVEL_2 | LEVEL_2_CAPTAIN | LEVEL_3

definition JANMITRA :: user_role where
  "JANMITRA = LEVEL_3"

definition AUTHORITY_ROLES :: "user_role list" where
  "AUTHORITY_ROLES = [LEVEL_0, LEVEL_1, LEVEL_2, LEVEL_2_CAPTAIN]"

datatype user_status = ACTIVE | SUSPENDED | REVOKED | PENDING

record user =
  user_id :: uuid
  user_is_deleted :: bool
  user_identifier :: string
  role :: user_role
  status :: user_status
  is_anonymous :: bool
  is_active :: bool
  revoked_at :: "timestamp option"
  revoked_by :: "uuid option"
  revocation_reason :: string

definition is_level_0 :: "user \<Rightarrow> bool" where
  "is_level_0 u = (role u = LEVEL_0)"

definition is_level_1 :: "user \<Rightarrow> bool" where
  "is_level_1 u = (role u = LEVEL_1)"

definition is_level_2 :: "user \<Rightarrow> bool" where
  "is_level_2 u = (role u = LEVEL_2)"

definition is_level_2_captain :: "user \<Rightarrow> bool" where
  "is_level_2_captain u = (role u = LEVEL_2_CAPTAIN)"

definition is_janmitra :: "user \<Rightarrow> bool" where
  "is_janmitra u = (role u = LEVEL_3)"

definition is_authority :: "user \<Rightarrow> bool" where
  "is_authority u = (role u \<in> set AUTHORITY_ROLES)"

definition is_revoked :: "user \<Rightarrow> bool" where
  "is_revoked u = (status u = REVOKED)"

section \<open>Cases and their history\<close>

text \<open>\<^verbatim>\<open>class CaseStatus\<close> and \<^verbatim>\<open>class CaseLevel\<close> of reports/models.py.\<close>

datatype case_status = OPEN | SOLVED | REJECTED | CLOSED

definition CaseLevel_LEVEL_2 :: int where "CaseLevel_LEVEL_2 = 2"
definition CaseLevel_LEVEL_1 :: int where "CaseLevel_LEVEL_1 = 1"
definition CaseLevel_LEVEL_0 :: int where "CaseLevel_LEVEL_0 = 0"

record case_row =
  case_id :: uuid
  case_is_deleted :: bool
  incident :: uuid
  current_level :: int
  case_status :: case_status
  sla_deadline :: timestamp
  solved_at :: "timestamp option"
  solved_by :: "uuid option"
  solution_notes :: string
  rejected_at :: "timestamp option"
  rejected_by :: "uuid option"
  rejection_reason :: string
  escalation_count :: nat
  last_escalated_at :: "timestamp option"

record history_row =
  h_case :: uuid
  from_status :: "case_status option"
  to_status :: case_status
  from_level :: "int option"
  to_level :: "int option"
  changed_by :: "uuid option"
  reason :: string
  is_auto_escalation :: bool

text \<open>
  The two tables the case engine writes. \<open>cases\<close> holds every row (also the
  soft-deleted ones); \<open>history\<close> is in insertion order, oldest first.
\<close>

record case_db =
  cases :: "case_row list"
  history :: "history_row list"

section \<open>Visibility of cases\<close>

text \<open>
  \<^verbatim>\<open>visible_cases_for_user\<close> (reports/models.py): the queryset behind
  \<^verbatim>\<open>CaseListView\<close> and \<^verbatim>\<open>CaseDetailView\<close>. The captain's branch
  filters \<^verbatim>\<open>current_level__gte=2\<close>.
\<close>

definition visible_cases_for_user :: "user \<Rightarrow> case_row list \<Rightarrow> case_row list" where
  "visible_cases_for_user u tbl =
     (let qs = filter (\<lambda>c. \<not> case_is_deleted c) tbl in
      if is_level_2 u \<and> \<not> is_level_2_captain u then filter (\<lambda>c. current_level c = 2) qs
      else if is_level_2_captain u then filter (\<lambda>c. current_level c \<ge> 2) qs
      else if is_level_1 u then filter (\<lambda>c. current_level c = 1) qs
      else if is_level_0 u then filter (\<lambda>c. current_level c = 0) qs
      else [])"

text \<open>
  \<^verbatim>\<open>CaseListView.get_queryset\<close>: the optional \<^verbatim>\<open>status\<close> query parameter
  narrows the visible rows (an absent or empty parameter does not). The final
  \<^verbatim>\<open>order_by\<close> only permutes the rows and is left out.
\<close>

definition CaseListView_get_queryset ::
  "user \<Rightarrow> case_status option \<Rightarrow> case_row list \<Rightarrow> case_row list" where
  "CaseListView_get_queryset u status_filter tbl =
     (if is_janmitra u then []
      else (let queryset = visible_cases_for_user u tbl in
            case status_filter of
              None \<Rightarrow> queryset
            | Some s \<Rightarrow> filter (\<lambda>c. case_status c = s) queryset))"

text \<open>
  \<^verbatim>\<open>OpenCasesView.get_queryset\<close> (reports/views.py), whose docstring promises the
  same visibility rules as \<^verbatim>\<open>CaseListView\<close>, restricted to OPEN cases. Its
  captain branch filters \<^verbatim>\<open>current_level__lte=CaseLevel.LEVEL_2\<close>.
\<close>

definition OpenCasesView_get_queryset :: "user \<Rightarrow> case_row list \<Rightarrow> case_row list" where
  "OpenCasesView_get_queryset u tbl =
     (if is_janmitra u then []
      else (let queryset = filter (\<lambda>c. \<not> case_is_deleted c \<and> case_status c = OPEN) tbl in
            if is_level_2 u \<and> \<not> is_level_2_captain u
              then filter (\<lambda>c. current_level c = CaseLevel_LEVEL_2) queryset
            else if is_level_2_captain u
              then filter (\<lambda>c. current_level c \<le> CaseLevel_LEVEL_2) queryset
            else if is_level_1 u
              then filter (\<lambda>c. current_level c = CaseLevel_LEVEL_1) queryset
            else if is_level_0 u
              then filter (\<lambda>c. current_level c = CaseLevel_LEVEL_0) queryset
            else []))"

text \<open>
  \<^verbatim>\<open>IncidentFeedView.get_queryset\<close>: the third listing, again with
  \<^verbatim>\<open>current_level__lte\<close> for the captain; the slice to the newest 100 rows is
  left out.
\<close>

definition IncidentFeedView_get_queryset :: "user \<Rightarrow> case_row list \<Rightarrow> case_row list" where
  "IncidentFeedView_get_queryset u tbl =
     (if is_janmitra u then []
      else (let queryset = filter (\<lambda>c. \<not> case_is_deleted c) tbl in
            if is_level_2 u \<and> \<not> is_level_2_captain u
              then filter (\<lambda>c. current_level c = CaseLevel_LEVEL_2) queryset
            else if is_level_2_captain u
              then filter (\<lambda>c. current_level c \<le> CaseLevel_LEVEL_2) queryset
            else if is_level_1 u
              then filter (\<lambda>c. current_level c = CaseLevel_LEVEL_1) queryset
            else if is_level_0 u
              then filter (\<lambda>c. current_level c = CaseLevel_LEVEL_0) queryset
            else []))"

text \<open>Concrete rows for evaluating the listings.\<close>

definition example_user :: "uuid \<Rightarrow> user_role \<Rightarrow> user" where
  "example_user i r =
     \<lparr>user_id = i, user_is_deleted = False, user_identifier = ''officer'', role = r, status = ACTIVE,
      is_anonymous = (r = LEVEL_3), is_active = True, revoked_at = None,
      revoked_by = None, revocation_reason = []\<rparr>"

definition example_case :: "uuid \<Rightarrow> int \<Rightarrow> case_status \<Rightarrow> timestamp \<Rightarrow> case_row" where
  "example_case i lvl st deadline =
     \<lparr>case_id = i, case_is_deleted = False, incident = i, current_level = lvl,
      case_status = st, sla_deadline = deadline, solved_at = None, solved_by = None,
      solution_notes = [], rejected_at = None, rejected_by = None,
      rejection_reason = [], escalation_count = 0, last_escalated_at = None\<rparr>"

section \<open>Device sessions\<close>

datatype invalidation = NEW_DEVICE | LOGOUT | ACCESS_REVOKED | SECURITY | EXPIRED

text \<open>
  \<^verbatim>\<open>class DeviceSession\<close>. \<open>invalidation_reason = None\<close> is the blank
  default of the column.
\<close>

record device_session =
  session_is_deleted :: bool
  session_user :: uuid
  device_fingerprint_hash :: string
  device_name :: string
  device_type :: string
  os_name :: string
  os_version :: string
  app_version :: string
  session_is_active :: bool
  refresh_token_jti :: string
  last_activity_at :: timestamp
  last_activity_ip :: "string option"
  invalidated_at :: "timestamp option"
  invalidation_reason :: "invalidation option"

text \<open>
  \<^verbatim>\<open>DeviceSession.objects\<close> is the \<^verbatim>\<open>SoftDeleteManager\<close> of
  core/models.py: every query through it sees the rows with \<^verbatim>\<open>is_deleted=False\<close>.
\<close>

definition DeviceSession_objects :: "device_session list \<Rightarrow> device_session list" where
  "DeviceSession_objects tbl = filter (\<lambda>s. \<not> session_is_deleted s) tbl"

text \<open>
  \<^verbatim>\<open>hash_fingerprint\<close> is \<^verbatim>\<open>hashlib.sha256(fingerprint.encode()).hexdigest()\<close>;
  the digest function of the Python library is the parameter \<open>sha256\<close>.
\<close>

definition hash_fingerprint :: "(string \<Rightarrow> string) \<Rightarrow> string \<Rightarrow> string" where
  "hash_fingerprint sha256 fingerprint = sha256 fingerprint"

definition verify_fingerprint :: "(string \<Rightarrow> string) \<Rightarrow> device_session \<Rightarrow> string \<Rightarrow> bool" where
  "verify_fingerprint sha256 s fingerprint =
     (device_fingerprint_hash s = hash_fingerprint sha256 fingerprint)"

text \<open>A Python dict of strings, and \<^verbatim>\<open>d.get(key, default)\<close>.\<close>

type_synonym dict = "string \<rightharpoonup> string"

definition dict_get :: "dict \<Rightarrow> string \<Rightarrow> string \<Rightarrow> string" where
  "dict_get d k dflt = (case d k of None \<Rightarrow> dflt | Some v \<Rightarrow> v)"

text \<open>
  \<^verbatim>\<open>DeviceSession.create_session\<close>: one \<^verbatim>\<open>UPDATE\<close> over the user's
  active rows, then one \<^verbatim>\<open>INSERT\<close>. The new row takes the column defaults
  (\<^verbatim>\<open>is_active=True\<close>, blank reason) and \<^verbatim>\<open>auto_now\<close> for its last
  activity. It returns the new row and the table.
\<close>

definition invalidate_active ::
  "timestamp \<Rightarrow> invalidation \<Rightarrow> uuid \<Rightarrow> device_session list \<Rightarrow> device_session list" where
  "invalidate_active now why uid tbl =
     map (\<lambda>s. if \<not> session_is_deleted s \<and> session_user s = uid \<and> session_is_active s
              then s\<lparr>session_is_active := False, invalidated_at := Some now,
                     invalidation_reason := Some why\<rparr>
              else s) tbl"

definition create_session ::
  "(string \<Rightarrow> string) \<Rightarrow> timestamp \<Rightarrow> device_session list \<Rightarrow> uuid \<Rightarrow> string \<Rightarrow> dict option
   \<Rightarrow> device_session \<times> device_session list" where
  "create_session sha256 now tbl uid device_fingerprint device_info =
     (let info = (case device_info of None \<Rightarrow> Map.empty | Some d \<Rightarrow> d);
          tbl1 = invalidate_active now NEW_DEVICE uid tbl;
          new = \<lparr>session_is_deleted = False,
                 session_user = uid,
                 device_fingerprint_hash = hash_fingerprint sha256 device_fingerprint,
                 device_name = dict_get info ''device_name'' [],
                 device_type = dict_get info ''device_type'' [],
                 os_name = dict_get info ''os_name'' [],
                 os_version = dict_get info ''os_version'' [],
                 app_version = dict_get info ''app_version'' [],
                 session_is_active = True,
                 refresh_token_jti = [],
                 last_activity_at = now,
                 last_activity_ip = info ''ip_address'',
                 invalidated_at = None,
                 invalidation_reason = None\<rparr>
      in (new, tbl1 @ [new]))"

text \<open>A sequence of \<^verbatim>\<open>create_session\<close> calls: (time, user, fingerprint, device info).\<close>

type_synonym session_call = "timestamp \<times> uuid \<times> string \<times> dict option"

fun create_sessions ::
  "(string \<Rightarrow> string) \<Rightarrow> session_call list \<Rightarrow> device_session list \<Rightarrow> device_session list" where
  "create_sessions sha256 [] tbl = tbl"
| "create_sessions sha256 ((now, uid, fp, info) # calls) tbl =
     create_sessions sha256 calls (snd (create_session sha256 now tbl uid fp info))"

definition active_sessions :: "uuid \<Rightarrow> device_session list \<Rightarrow> device_session list" where
  "active_sessions uid tbl =
     filter (\<lambda>s. session_user s = uid \<and> session_is_active s) (DeviceSession_objects tbl)"

section \<open>Revocation\<close>

record auth_db =
  users :: "user list"
  sessions :: "device_session list"

text \<open>
  \<^verbatim>\<open>User.revoke_access\<close>: \<^verbatim>\<open>self.save()\<close> rewrites the row with the
  user's primary key, then the user's active sessions are invalidated.
\<close>

definition save_user :: "user \<Rightarrow> user list \<Rightarrow> user list" where
  "save_user u tbl = map (\<lambda>r. if user_id r = user_id u then u else r) tbl"

definition revoke_access :: "timestamp \<Rightarrow> auth_db \<Rightarrow> user \<Rightarrow> uuid \<Rightarrow> string \<Rightarrow> auth_db" where
  "revoke_access now db self by_user why =
     (let self1 = self\<lparr>status := REVOKED, revoked_at := Some now, revoked_by := Some by_user,
                       revocation_reason := why, is_active := False\<rparr>
      in \<lparr>users = save_user self1 (users db),
          sessions = invalidate_active now ACCESS_REVOKED (user_id self) (sessions db)\<rparr>)"

text \<open>
  The permission classes of authentication/permissions.py. The request's user is
  \<open>None\<close> for Django's \<^verbatim>\<open>AnonymousUser\<close>, whose
  \<^verbatim>\<open>is_authenticated\<close> is false.
\<close>

definition IsLevel1_has_permission :: "user option \<Rightarrow> bool" where
  "IsLevel1_has_permission ru =
     (case ru of None \<Rightarrow> False
      | Some u \<Rightarrow> if is_revoked u \<or> \<not> is_active u then False else is_level_1 u)"

definition IsLevel1OrLevel2_has_permission :: "user option \<Rightarrow> bool" where
  "IsLevel1OrLevel2_has_permission ru =
     (case ru of None \<Rightarrow> False
      | Some u \<Rightarrow> if is_revoked u \<or> \<not> is_active u then False else is_authority u)"

definition CanRevokeUser_has_permission :: "user option \<Rightarrow> bool" where
  "CanRevokeUser_has_permission ru = (case ru of None \<Rightarrow> False | Some u \<Rightarrow> is_level_1 u)"

definition CanRevokeUser_has_object_permission :: "user \<Rightarrow> user \<Rightarrow> bool" where
  "CanRevokeUser_has_object_permission u obj =
     (if user_id obj = user_id u then False
      else if is_level_1 obj then False
      else is_level_1 u)"

text \<open>
  What a view hands back: a \<^verbatim>\<open>Response\<close> (body as key/value pairs, HTTP
  status), or one of the exceptions the framework turns into a 403 or 401 reply, or a
  database integrity error. \<^verbatim>\<open>permission_denied\<close> is the framework's:
  \<^verbatim>\<open>NotAuthenticated\<close> for a request without an authenticated user,
  \<^verbatim>\<open>PermissionDenied\<close> with the permission class's message otherwise.
\<close>

datatype api_result =
    Response "(string \<times> string) list" nat
  | PermissionDenied string
  | NotAuthenticated
  | IntegrityError

definition permission_denied :: "user option \<Rightarrow> string \<Rightarrow> api_result" where
  "permission_denied ru message =
     (case ru of None \<Rightarrow> NotAuthenticated | Some u \<Rightarrow> PermissionDenied message)"

definition IsLevel1_message :: string where
  "IsLevel1_message = ''This action requires Level 1 authority.''"

definition IsLevel1OrLevel2_message :: string where
  "IsLevel1OrLevel2_message = ''This action requires authority access.''"

definition CanRevokeUser_message :: string where
  "CanRevokeUser_message = ''You do not have permission to revoke user access.''"

text \<open>Python's \<^verbatim>\<open>str.strip()\<close> on ASCII text.\<close>

definition is_space :: "char \<Rightarrow> bool" where
  "is_space c = (of_char c \<in> {9, 10, 11, 12, 13, 28, 29, 30, 31, 32 :: nat})"

definition strip :: "string \<Rightarrow> string" where
  "strip s = rev (dropWhile is_space (rev (dropWhile is_space s)))"

text \<open>
  \<^verbatim>\<open>RevokeUserView\<close>, \<^verbatim>\<open>permission_classes = [IsLevel1, CanRevokeUser]\<close>.
  \<open>RevokeUserView_post\<close> is the handler, \<open>RevokeUserView\<close> the handler behind the
  view-level permission checks. \<^verbatim>\<open>User.objects\<close> sees the users that are not
  soft-deleted; the audit-log write is not modelled. The reason is a request string
  of any script, so \<^verbatim>\<open>str.strip\<close> of the Python library, which removes every
  Unicode whitespace character, is the parameter \<open>str_strip\<close> (\<open>strip\<close> above
  is that function on ASCII text).
\<close>

definition User_objects_get :: "user list \<Rightarrow> uuid \<Rightarrow> user option" where
  "User_objects_get tbl uid = find (\<lambda>u. \<not> user_is_deleted u \<and> user_id u = uid) tbl"

definition RevokeUserView_post ::
  "(string \<Rightarrow> string) \<Rightarrow> timestamp \<Rightarrow> auth_db \<Rightarrow> user \<Rightarrow> uuid \<Rightarrow> dict
   \<Rightarrow> api_result \<times> auth_db" where
  "RevokeUserView_post str_strip now db request_user target_id data =
     (let why = str_strip (dict_get data ''reason'' []) in
      if why = [] then (Response [(''detail'', ''Revocation reason is required.'')] 400, db)
      else case User_objects_get (users db) target_id of
        None \<Rightarrow> (Response [(''detail'', ''User not found.'')] 404, db)
      | Some target_user \<Rightarrow>
          if \<not> CanRevokeUser_has_object_permission request_user target_user
            then (PermissionDenied CanRevokeUser_message, db)
          else if is_revoked target_user
            then (Response [(''detail'', ''User access is already revoked.'')] 400, db)
          else (Response [(''detail'', ''User access has been revoked.'')] 200,
                revoke_access now db target_user (user_id request_user) why))"

definition RevokeUserView ::
  "(string \<Rightarrow> string) \<Rightarrow> timestamp \<Rightarrow> auth_db \<Rightarrow> user option \<Rightarrow> uuid \<Rightarrow> dict
   \<Rightarrow> api_result \<times> auth_db" where
  "RevokeUserView str_strip now db ru target_id data =
     (if \<not> IsLevel1_has_permission ru then (permission_denied ru IsLevel1_message, db)
      else if \<not> CanRevokeUser_has_permission ru
        then (permission_denied ru CanRevokeUser_message, db)
      else case ru of
        None \<Rightarrow> (NotAuthenticated, db)
      | Some u \<Rightarrow> RevokeUserView_post str_strip now db u target_id data)"

section \<open>Invite codes\<close>

record invite_code =
  invite_id :: uuid
  invite_is_deleted :: bool
  code :: string
  issued_by :: uuid
  is_used :: bool
  used_at :: "timestamp option"
  used_by :: "uuid option"
  expires_at :: timestamp
  max_uses :: nat
  use_count :: nat

text \<open>\<^verbatim>\<open>InviteCode.is_valid\<close> (a property) and \<^verbatim>\<open>InviteCode.use\<close>.\<close>

definition is_valid :: "timestamp \<Rightarrow> invite_code \<Rightarrow> bool" where
  "is_valid now self =
     (if invite_is_deleted self then False
      else if use_count self \<ge> max_uses self then False
      else if now > expires_at self then False
      else True)"

definition use :: "timestamp \<Rightarrow> uuid \<Rightarrow> invite_code \<Rightarrow> invite_code" where
  "use now uid self =
     (let self1 = self\<lparr>use_count := use_count self + 1, used_at := Some now,
                       used_by := Some uid\<rparr>
      in if use_count self1 \<ge> max_uses self1 then self1\<lparr>is_used := True\<rparr> else self1)"

text \<open>
  \<^verbatim>\<open>JanMitraRegistrationSerializer.validate_invite_code\<close>: the lookup goes
  through \<^verbatim>\<open>InviteCode.objects\<close> (rows that are not soft-deleted) with the
  upper-cased code; each failure raises a \<^verbatim>\<open>ValidationError\<close> with its own
  message.
\<close>

datatype validation_error = ValidationError string

definition upper :: "string \<Rightarrow> string" where
  "upper s = map (\<lambda>c. if 97 \<le> (of_char c :: nat) \<and> (of_char c :: nat) \<le> 122
                       then char_of ((of_char c :: nat) - 32) else c) s"

definition validate_invite_code ::
  "timestamp \<Rightarrow> invite_code list \<Rightarrow> string \<Rightarrow> validation_error + invite_code" where
  "validate_invite_code now tbl v =
     (case find (\<lambda>i. \<not> invite_is_deleted i \<and> code i = upper v) tbl of
        None \<Rightarrow> Inl (ValidationError ''Invalid invite code.'')
      | Some invite \<Rightarrow>
          if \<not> is_valid now invite then
            (if invite_is_deleted invite
               then Inl (ValidationError ''This invite code has been revoked.'')
             else if use_count invite \<ge> max_uses invite
               then Inl (ValidationError ''This invite code has already been used.'')
             else if now > expires_at invite
               then Inl (ValidationError ''This invite code has expired.'')
             else Inl (ValidationError ''This invite code is no longer valid.''))
          else Inr invite)"

text \<open>
  The invite part of \<^verbatim>\<open>JanMitraRegistrationSerializer\<close>: validation, then
  \<^verbatim>\<open>invite.use(user)\<close> in \<^verbatim>\<open>create\<close>, whose \<^verbatim>\<open>save()\<close> rewrites
  the row with the invite's primary key.
\<close>

definition save_invite :: "invite_code \<Rightarrow> invite_code list \<Rightarrow> invite_code list" where
  "save_invite i tbl = map (\<lambda>r. if invite_id r = invite_id i then i else r) tbl"

definition useInvite ::
  "timestamp \<Rightarrow> invite_code list \<Rightarrow> string \<Rightarrow> uuid \<Rightarrow> validation_error + invite_code list" where
  "useInvite now tbl v uid =
     (case validate_invite_code now tbl v of
        Inl e \<Rightarrow> Inl e
      | Inr invite \<Rightarrow> Inr (save_invite (use now uid invite) tbl))"

section \<open>Device-bound token authentication\<close>

text \<open>
  The request headers the backend reads (\<^verbatim>\<open>request.META\<close>), each absent or a
  string.
\<close>

record request =
  HTTP_X_DEVICE_FINGERPRINT :: "string option"
  HTTP_X_FORWARDED_FOR :: "string option"
  REMOTE_ADDR :: "string option"

text \<open>
  Every rejection of authentication/backends.py raises \<^verbatim>\<open>InvalidToken\<close> with a
  code; the parent class of the JWT library raises \<^verbatim>\<open>InvalidToken\<close> for a
  token that does not validate and \<^verbatim>\<open>AuthenticationFailed\<close> with the code
  \<^verbatim>\<open>user_not_found\<close> or \<^verbatim>\<open>user_inactive\<close> for the token's user;
  \<^verbatim>\<open>DeviceSession.objects.get\<close> raises \<^verbatim>\<open>MultipleObjectsReturned\<close>
  when the user has several active rows, which the backend does not catch.
\<close>

datatype token_code =
    token_not_valid | access_revoked | account_suspended | account_inactive
  | missing_device_fingerprint | no_active_session | device_mismatch

datatype failure_code = user_not_found | user_inactive

datatype auth_exception =
    InvalidToken token_code
  | AuthenticationFailed failure_code
  | MultipleObjectsReturned

definition get_ip :: "request \<Rightarrow> string" where
  "get_ip req =
     (case HTTP_X_FORWARDED_FOR req of
        Some x \<Rightarrow> if x \<noteq> [] then strip (takeWhile (\<lambda>c. c \<noteq> CHR '','') x)
                  else (case REMOTE_ADDR req of None \<Rightarrow> ''unknown'' | Some a \<Rightarrow> a)
      | None \<Rightarrow> (case REMOTE_ADDR req of None \<Rightarrow> ''unknown'' | Some a \<Rightarrow> a))"

text \<open>\<^verbatim>\<open>_check_user_status\<close>: \<open>Some e\<close> is the exception raised, \<open>None\<close> a pass.\<close>

definition check_user_status :: "user \<Rightarrow> auth_exception option" where
  "check_user_status u =
     (if is_revoked u then Some (InvalidToken access_revoked)
      else if status u = SUSPENDED then Some (InvalidToken account_suspended)
      else if \<not> is_active u then Some (InvalidToken account_inactive)
      else None)"

definition validate_device_binding ::
  "(string \<Rightarrow> string) \<Rightarrow> device_session list \<Rightarrow> user \<Rightarrow> request \<Rightarrow> auth_exception option" where
  "validate_device_binding sha256 tbl u req =
     (let device_fingerprint =
            (case HTTP_X_DEVICE_FINGERPRINT req of None \<Rightarrow> [] | Some f \<Rightarrow> f) in
      if device_fingerprint = [] then Some (InvalidToken missing_device_fingerprint)
      else case active_sessions (user_id u) tbl of
        [] \<Rightarrow> Some (InvalidToken no_active_session)
      | [active_session] \<Rightarrow>
          if \<not> verify_fingerprint sha256 active_session device_fingerprint
            then Some (InvalidToken device_mismatch)
          else None
      | _ \<Rightarrow> Some MultipleObjectsReturned)"

definition update_activity ::
  "timestamp \<Rightarrow> device_session list \<Rightarrow> user \<Rightarrow> request \<Rightarrow> device_session list" where
  "update_activity now tbl u req =
     (if is_janmitra u
        then map (\<lambda>s. if \<not> session_is_deleted s \<and> session_user s = user_id u \<and> session_is_active s
                      then s\<lparr>last_activity_at := now, last_activity_ip := Some (get_ip req)\<rparr>
                      else s) tbl
      else tbl)"

text \<open>
  \<^verbatim>\<open>JWTAuthentication.authenticate\<close>, the parent class in the JWT library
  (rest_framework_simplejwt), which the backend calls first. What the library makes
  of the \<^verbatim>\<open>Authorization\<close> header is the input: no bearer credentials, a
  token that does not validate (signature, expiry, type), or a validated token with
  its \<^verbatim>\<open>user_id\<close> claim. \<^verbatim>\<open>get_user\<close> then reads the user through
  \<^verbatim>\<open>User.objects\<close> and raises \<^verbatim>\<open>AuthenticationFailed\<close> when there
  is none or when \<^verbatim>\<open>user.is_active\<close> is false.
\<close>

datatype 'tok bearer = NoCredentials | Rejected | Validated uuid 'tok

definition get_user :: "user list \<Rightarrow> uuid \<Rightarrow> auth_exception + user" where
  "get_user tbl uid =
     (case User_objects_get tbl uid of
        None \<Rightarrow> Inl (AuthenticationFailed user_not_found)
      | Some u \<Rightarrow> if \<not> is_active u then Inl (AuthenticationFailed user_inactive) else Inr u)"

definition JWTAuthentication_authenticate ::
  "user list \<Rightarrow> 'tok bearer \<Rightarrow> auth_exception + (user \<times> 'tok) option" where
  "JWTAuthentication_authenticate tbl jwt =
     (case jwt of
        NoCredentials \<Rightarrow> Inr None
      | Rejected \<Rightarrow> Inl (InvalidToken token_not_valid)
      | Validated uid validated_token \<Rightarrow>
          (case get_user tbl uid of
             Inl e \<Rightarrow> Inl e
           | Inr u \<Rightarrow> Inr (Some (u, validated_token))))"

text \<open>
  \<^verbatim>\<open>DeviceBoundJWTAuthentication.authenticate\<close>: the parent's result, then
  the status check, the device binding for a JanMitra member, and the activity
  update. The result is the exception raised, or the value returned (\<open>None\<close> or
  the pair), with the tables.
\<close>

definition authenticate ::
  "(string \<Rightarrow> string) \<Rightarrow> timestamp \<Rightarrow> auth_db \<Rightarrow> request \<Rightarrow> 'tok bearer
   \<Rightarrow> (auth_exception + (user \<times> 'tok) option) \<times> auth_db" where
  "authenticate sha256 now db req jwt =
     (case JWTAuthentication_authenticate (users db) jwt of
        Inl e \<Rightarrow> (Inl e, db)
      | Inr None \<Rightarrow> (Inr None, db)
      | Inr (Some (u, validated_token)) \<Rightarrow>
          (case check_user_status u of
             Some e \<Rightarrow> (Inl e, db)
           | None \<Rightarrow>
               (case (if is_janmitra u then validate_device_binding sha256 (sessions db) u req
                      else None) of
                  Some e \<Rightarrow> (Inl e, db)
                | None \<Rightarrow>
                    (Inr (Some (u, validated_token)),
                     db\<lparr>sessions := update_activity now (sessions db) u req\<rparr>))))"

section \<open>Case lifecycle engine\<close>

text \<open>
  \<^verbatim>\<open>Case.objects\<close> is the soft-delete manager; \<^verbatim>\<open>Case.objects.get(id=...)\<close>
  finds the row with that primary key or raises \<^verbatim>\<open>DoesNotExist\<close> (\<open>None\<close>).
  \<^verbatim>\<open>case.save()\<close> rewrites the row with the object's primary key.
\<close>

definition Case_objects :: "case_row list \<Rightarrow> case_row list" where
  "Case_objects tbl = filter (\<lambda>c. \<not> case_is_deleted c) tbl"

definition Case_objects_get :: "case_row list \<Rightarrow> uuid \<Rightarrow> case_row option" where
  "Case_objects_get tbl cid = find (\<lambda>c. case_id c = cid) (Case_objects tbl)"

definition save_case :: "case_row \<Rightarrow> case_row list \<Rightarrow> case_row list" where
  "save_case c tbl = map (\<lambda>r. if case_id r = case_id c then c else r) tbl"

definition timedelta_hours :: "int \<Rightarrow> int" where
  "timedelta_hours h = h * 3600000000"

text \<open>Python's \<^verbatim>\<open>str\<close> of an integer, for the formatted messages.\<close>

function str_nat :: "nat \<Rightarrow> string" where
  "str_nat n =
     (if n < 10 then [char_of (48 + n)]
      else str_nat (n div 10) @ [char_of (48 + n mod 10)])"
  by pat_completeness auto
termination
  by (relation "measure (\<lambda>n. n)") auto

declare str_nat.simps [simp del]

definition str_int :: "int \<Rightarrow> string" where
  "str_int i = (if i < 0 then CHR ''-'' # str_nat (nat (- i)) else str_nat (nat i))"

text \<open>
  \<^verbatim>\<open>IsAuthenticated\<close> of authentication/permissions.py guards the submission
  endpoint; it carries no message of its own, so the framework's default is used.
\<close>

definition IsAuthenticated_has_permission :: "user option \<Rightarrow> bool" where
  "IsAuthenticated_has_permission ru =
     (case ru of None \<Rightarrow> False
      | Some u \<Rightarrow> if is_revoked u \<or> \<not> is_active u then False else True)"

definition default_denied_message :: string where
  "default_denied_message = ''You do not have permission to perform this action.''"

text \<open>
  \<^verbatim>\<open>IncidentBroadcastView.post\<close>, the part inside \<^verbatim>\<open>transaction.atomic()\<close>:
  the incident, its case at level 2 with a 24 hour SLA, and the first history row. The
  primary keys that \<^verbatim>\<open>uuid.uuid4\<close> draws are the parameters \<open>new_incident\<close> and
  \<open>new_case\<close>; a key already in the table, or an incident that already has a case
  (the one-to-one column), violates a uniqueness constraint and rolls the transaction
  back. The incident's own columns, media, notification, geocoding and the audit
  entry are not modelled.
\<close>

definition IncidentBroadcastView_post ::
  "timestamp \<Rightarrow> case_db \<Rightarrow> user \<Rightarrow> uuid \<Rightarrow> uuid \<Rightarrow> dict \<Rightarrow> api_result \<times> case_db" where
  "IncidentBroadcastView_post now db request_user new_incident new_case data =
     (let text_content = strip (dict_get data ''text_content'' []) in
      if text_content = []
        then (Response [(''text_content'', ''This field is required.'')] 400, db)
      else if list_ex (\<lambda>r. case_id r = new_case \<or> incident r = new_incident) (cases db)
        then (IntegrityError, db)
      else
        (let c = \<lparr>case_id = new_case, case_is_deleted = False, incident = new_incident,
                   current_level = CaseLevel_LEVEL_2, case_status = OPEN,
                   sla_deadline = now + timedelta_hours 24,
                   solved_at = None, solved_by = None, solution_notes = [],
                   rejected_at = None, rejected_by = None, rejection_reason = [],
                   escalation_count = 0, last_escalated_at = None\<rparr>;
             h = \<lparr>h_case = new_case, from_status = None, to_status = OPEN,
                   from_level = None, to_level = Some CaseLevel_LEVEL_2,
                   changed_by = Some (user_id request_user),
                   reason = ''Initial submission'', is_auto_escalation = False\<rparr>
         in (Response [(''message'', ''Incident broadcast received''),
                       (''incident_id'', str_nat new_incident),
                       (''case_id'', str_nat new_case)] 201,
             \<lparr>cases = cases db @ [c], history = history db @ [h]\<rparr>)))"

definition IncidentBroadcastView ::
  "timestamp \<Rightarrow> case_db \<Rightarrow> user option \<Rightarrow> uuid \<Rightarrow> uuid \<Rightarrow> dict \<Rightarrow> api_result \<times> case_db" where
  "IncidentBroadcastView now db ru new_incident new_case data =
     (if \<not> IsAuthenticated_has_permission ru then (permission_denied ru default_denied_message, db)
      else case ru of
        None \<Rightarrow> (NotAuthenticated, db)
      | Some u \<Rightarrow> IncidentBroadcastView_post now db u new_incident new_case data)"

text \<open>
  \<^verbatim>\<open>SolveCaseView.post\<close>. The history row is created without
  \<^verbatim>\<open>from_level\<close> and \<^verbatim>\<open>to_level\<close>, which stay null.
\<close>

definition SolveCaseView_post ::
  "timestamp \<Rightarrow> case_db \<Rightarrow> user \<Rightarrow> uuid \<Rightarrow> dict \<Rightarrow> api_result \<times> case_db" where
  "SolveCaseView_post now db request_user cid data =
     (case Case_objects_get (cases db) cid of
        None \<Rightarrow> (Response [(''detail'', ''Case not found.'')] 404, db)
      | Some c \<Rightarrow>
          if case_status c \<noteq> OPEN
            then (Response [(''detail'', ''Case is not open.'')] 400, db)
          else
            (let notes = dict_get data ''solution_notes'' [];
                 old_status = case_status c;
                 c1 = c\<lparr>case_status := SOLVED, solved_at := Some now,
                         solved_by := Some (user_id request_user), solution_notes := notes\<rparr>;
                 h = \<lparr>h_case = case_id c1, from_status = Some old_status, to_status = SOLVED,
                       from_level = None, to_level = None,
                       changed_by = Some (user_id request_user),
                       reason = notes, is_auto_escalation = False\<rparr>
             in (Response [(''detail'', ''Case marked as solved.'')] 200,
                 \<lparr>cases = save_case c1 (cases db), history = history db @ [h]\<rparr>)))"

text \<open>\<^verbatim>\<open>ForwardCaseView.post\<close>.\<close>

definition ForwardCaseView_post ::
  "timestamp \<Rightarrow> case_db \<Rightarrow> user \<Rightarrow> uuid \<Rightarrow> dict \<Rightarrow> api_result \<times> case_db" where
  "ForwardCaseView_post now db request_user cid data =
     (case Case_objects_get (cases db) cid of
        None \<Rightarrow> (Response [(''detail'', ''Case not found.'')] 404, db)
      | Some c \<Rightarrow>
          if case_status c \<noteq> OPEN
            then (Response [(''detail'', ''Case is not open.'')] 400, db)
          else if current_level c \<le> CaseLevel_LEVEL_0
            then (Response [(''detail'', ''Case is already at highest level.'')] 400, db)
          else
            (let why = dict_get data ''reason'' [];
                 old_level = current_level c;
                 c1 = c\<lparr>current_level := old_level - 1,
                         escalation_count := escalation_count c + 1,
                         last_escalated_at := Some now,
                         sla_deadline := now + timedelta_hours 24\<rparr>;
                 h = \<lparr>h_case = case_id c1, from_status = Some (case_status c1),
                       to_status = case_status c1,
                       from_level = Some old_level, to_level = Some (current_level c1),
                       changed_by = Some (user_id request_user),
                       reason = (if why \<noteq> [] then why else ''Forwarded to higher level''),
                       is_auto_escalation = False\<rparr>
             in (Response [(''detail'', ''Case forwarded to Level ''
                              @ str_int (current_level c1) @ ''.'')] 200,
                 \<lparr>cases = save_case c1 (cases db), history = history db @ [h]\<rparr>)))"

text \<open>\<^verbatim>\<open>RejectCaseView.post\<close>; its history row has no levels either.\<close>

definition RejectCaseView_post ::
  "timestamp \<Rightarrow> case_db \<Rightarrow> user \<Rightarrow> uuid \<Rightarrow> dict \<Rightarrow> api_result \<times> case_db" where
  "RejectCaseView_post now db request_user cid data =
     (case Case_objects_get (cases db) cid of
        None \<Rightarrow> (Response [(''detail'', ''Case not found.'')] 404, db)
      | Some c \<Rightarrow>
          if case_status c \<noteq> OPEN
            then (Response [(''detail'', ''Case is not open.'')] 400, db)
          else
            (let why = dict_get data ''reason'' [] in
             if why = []
               then (Response [(''reason'', ''Rejection reason is required.'')] 400, db)
             else
               (let old_status = case_status c;
                    c1 = c\<lparr>case_status := REJECTED, rejected_at := Some now,
                            rejected_by := Some (user_id request_user),
                            rejection_reason := why\<rparr>;
                    h = \<lparr>h_case = case_id c1, from_status = Some old_status,
                          to_status = REJECTED, from_level = None, to_level = None,
                          changed_by = Some (user_id request_user),
                          reason = why, is_auto_escalation = False\<rparr>
                in (Response [(''detail'', ''Case rejected.'')] 200,
                    \<lparr>cases = save_case c1 (cases db), history = history db @ [h]\<rparr>))))"

text \<open>
  The three endpoints behind their permission class,
  \<^verbatim>\<open>permission_classes = [IsLevel1OrLevel2]\<close>.
\<close>

definition authority_view ::
  "(user \<Rightarrow> api_result \<times> case_db) \<Rightarrow> case_db \<Rightarrow> user option \<Rightarrow> api_result \<times> case_db" where
  "authority_view post db ru =
     (if \<not> IsLevel1OrLevel2_has_permission ru
        then (permission_denied ru IsLevel1OrLevel2_message, db)
      else case ru of None \<Rightarrow> (NotAuthenticated, db) | Some u \<Rightarrow> post u)"

definition SolveCaseView ::
  "timestamp \<Rightarrow> case_db \<Rightarrow> user option \<Rightarrow> uuid \<Rightarrow> dict \<Rightarrow> api_result \<times> case_db" where
  "SolveCaseView now db ru cid data =
     authority_view (\<lambda>u. SolveCaseView_post now db u cid data) db ru"

definition ForwardCaseView ::
  "timestamp \<Rightarrow> case_db \<Rightarrow> user option \<Rightarrow> uuid \<Rightarrow> dict \<Rightarrow> api_result \<times> case_db" where
  "ForwardCaseView now db ru cid data =
     authority_view (\<lambda>u. ForwardCaseView_post now db u cid data) db ru"

definition RejectCaseView ::
  "timestamp \<Rightarrow> case_db \<Rightarrow> user option \<Rightarrow> uuid \<Rightarrow> dict \<Rightarrow> api_result \<times> case_db" where
  "RejectCaseView now db ru cid data =
     authority_view (\<lambda>u. RejectCaseView_post now db u cid data) db ru"

section \<open>Admin actions\<close>

text \<open>
  \<^verbatim>\<open>CaseAdmin.force_escalate_case\<close> and \<^verbatim>\<open>force_close_case\<close>. The
  action's queryset is the rows of \<^verbatim>\<open>Case.objects\<close> whose keys the admin
  selected, read when the loop starts; each loop body works on the row it was
  handed and saves it. The result is the table with the two counters the admin is
  told (\<open>escalated\<close> or \<open>closed\<close>, and \<open>skipped\<close>).
\<close>

definition admin_queryset :: "case_row list \<Rightarrow> uuid list \<Rightarrow> case_row list" where
  "admin_queryset tbl selected = filter (\<lambda>c. case_id c \<in> set selected) (Case_objects tbl)"

definition force_escalate_step ::
  "timestamp \<Rightarrow> user \<Rightarrow> case_db \<times> nat \<times> nat \<Rightarrow> case_row \<Rightarrow> case_db \<times> nat \<times> nat" where
  "force_escalate_step now request_user st c =
     (case st of (db, escalated_count, skipped_count) \<Rightarrow>
        if case_status c \<noteq> OPEN then (db, escalated_count, skipped_count + 1)
        else if current_level c = CaseLevel_LEVEL_0 then (db, escalated_count, skipped_count + 1)
        else
          (let prev_level = current_level c;
               prev_status = case_status c;
               c1 = c\<lparr>current_level := current_level c - 1,
                       escalation_count := escalation_count c + 1,
                       last_escalated_at := Some now,
                       sla_deadline := now + timedelta_hours 24\<rparr>;
               h = \<lparr>h_case = case_id c1, from_status = Some prev_status,
                     to_status = case_status c1,
                     from_level = Some prev_level, to_level = Some (current_level c1),
                     changed_by = Some (user_id request_user),
                     reason = ''Admin force escalation by '' @ user_identifier request_user,
                     is_auto_escalation = False\<rparr>
           in (\<lparr>cases = save_case c1 (cases db), history = history db @ [h]\<rparr>,
               escalated_count + 1, skipped_count)))"

definition force_escalate_case ::
  "timestamp \<Rightarrow> case_db \<Rightarrow> user \<Rightarrow> uuid list \<Rightarrow> case_db \<times> nat \<times> nat" where
  "force_escalate_case now db request_user selected =
     foldl (force_escalate_step now request_user) (db, 0, 0)
       (admin_queryset (cases db) selected)"

definition force_close_step ::
  "user \<Rightarrow> case_db \<times> nat \<times> nat \<Rightarrow> case_row \<Rightarrow> case_db \<times> nat \<times> nat" where
  "force_close_step request_user st c =
     (case st of (db, closed_count, skipped_count) \<Rightarrow>
        if case_status c \<in> set [SOLVED, REJECTED, CLOSED]
          then (db, closed_count, skipped_count + 1)
        else
          (let prev_status = case_status c;
               prev_level = current_level c;
               c1 = c\<lparr>case_status := CLOSED\<rparr>;
               h = \<lparr>h_case = case_id c1, from_status = Some prev_status, to_status = CLOSED,
                     from_level = Some prev_level, to_level = Some prev_level,
                     changed_by = Some (user_id request_user),
                     reason = ''Admin force closed by '' @ user_identifier request_user,
                     is_auto_escalation = False\<rparr>
           in (\<lparr>cases = save_case c1 (cases db), history = history db @ [h]\<rparr>,
               closed_count + 1, skipped_count)))"

definition force_close_case ::
  "case_db \<Rightarrow> user \<Rightarrow> uuid list \<Rightarrow> case_db \<times> nat \<times> nat" where
  "force_close_case db request_user selected =
     foldl (force_close_step request_user) (db, 0, 0) (admin_queryset (cases db) selected)"

section \<open>SLA auto-escalation sweep\<close>

text \<open>
  The management command auto_escalate_cases.py imports \<^verbatim>\<open>Case\<close> from
  reports.models and \<^verbatim>\<open>AuditEventType\<close> from audit.models, and runs on the
  configured database. It calls three methods of \<^verbatim>\<open>Case\<close> that
  reports/models.py does not define: \<^verbatim>\<open>can_escalate()\<close>,
  \<^verbatim>\<open>is_sla_expired(now)\<close> and
  \<^verbatim>\<open>calculate_sla_deadline_for_level(level, now)\<close>. These three, the string
  constants of the \<^verbatim>\<open>AuditEventType\<close> class, and the feature flag
  \<^verbatim>\<open>has_select_for_update\<close> of the database backend (true on PostgreSQL, false
  on SQLite) are collected in a record, the parameter of the sweep.
\<close>

record sweep_imports =
  can_escalate :: "case_row \<Rightarrow> bool \<times> string"
  is_sla_expired :: "case_row \<Rightarrow> timestamp \<Rightarrow> bool"
  calculate_sla_deadline_for_level :: "int \<Rightarrow> timestamp \<Rightarrow> timestamp"
  audit_event_types :: "(string \<times> string) list"
  has_select_for_update :: bool

text \<open>
  \<^verbatim>\<open>class AuditEventType\<close> of audit/models.py: its string constants, by name.
  Reading a name the class does not define raises \<^verbatim>\<open>AttributeError\<close>.
\<close>

definition AuditEventType :: "(string \<times> string) list" where
  "AuditEventType =
     [(''AUTH_LOGIN_SUCCESS'', ''auth.login.success''), (''AUTH_LOGIN_FAILED'', ''auth.login.failed''),
      (''AUTH_LOGOUT'', ''auth.logout''), (''AUTH_TOKEN_REFRESH'', ''auth.token.refresh''),
      (''AUTH_TOKEN_REVOKED'', ''auth.token.revoked''), (''AUTH_PASSWORD_CHANGED'', ''auth.password.changed''),
      (''AUTH_DEVICE_REGISTERED'', ''auth.device.registered''), (''AUTH_DEVICE_INVALIDATED'', ''auth.device.invalidated''),
      (''USER_CREATED'', ''user.created''), (''USER_UPDATED'', ''user.updated''),
      (''USER_REVOKED'', ''user.revoked''), (''USER_SUSPENDED'', ''user.suspended''),
      (''USER_RESTORED'', ''user.restored''), (''INVITE_CREATED'', ''invite.created''),
      (''INVITE_USED'', ''invite.used''), (''INVITE_EXPIRED'', ''invite.expired''),
      (''REPORT_CREATED'', ''report.created''), (''REPORT_VIEWED'', ''report.viewed''),
      (''REPORT_ASSIGNED'', ''report.assigned''), (''REPORT_STATUS_CHANGED'', ''report.status.changed''),
      (''REPORT_VALIDATED'', ''report.validated''), (''REPORT_REJECTED'', ''report.rejected''),
      (''MEDIA_UPLOADED'', ''media.uploaded''), (''MEDIA_ACCESSED'', ''media.accessed''),
      (''MEDIA_DECRYPTED'', ''media.decrypted''), (''ESCALATION_CREATED'', ''escalation.created''),
      (''ESCALATION_APPROVED'', ''escalation.approved''), (''ESCALATION_REJECTED'', ''escalation.rejected''),
      (''IDENTITY_REVEAL_REQUESTED'', ''identity.reveal.requested''), (''IDENTITY_REVEAL_APPROVED'', ''identity.reveal.approved''),
      (''IDENTITY_REVEAL_REJECTED'', ''identity.reveal.rejected''), (''IDENTITY_REVEALED'', ''identity.revealed''),
      (''DECRYPTION_REQUESTED'', ''decryption.requested''), (''DECRYPTION_APPROVED'', ''decryption.approved''),
      (''DECRYPTION_REJECTED'', ''decryption.rejected''), (''DECRYPTION_PERFORMED'', ''decryption.performed''),
      (''SYSTEM_ERROR'', ''system.error''), (''SYSTEM_SECURITY_ALERT'', ''system.security.alert'')]"

text \<open>
  \<^verbatim>\<open>save(update_fields=[...])\<close> writes the four listed columns of the row with
  the object's primary key.
\<close>

definition save_escalation_fields :: "case_row \<Rightarrow> case_row list \<Rightarrow> case_row list" where
  "save_escalation_fields c tbl =
     map (\<lambda>r. if case_id r = case_id c
              then r\<lparr>current_level := current_level c,
                     escalation_count := escalation_count c,
                     last_escalated_at := last_escalated_at c,
                     sla_deadline := sla_deadline c\<rparr>
              else r) tbl"

datatype command_exception = DoesNotExist | AttributeError | TransactionManagementError

text \<open>
  \<^verbatim>\<open>Command._escalate_case\<close>: \<open>Inr True\<close> escalated, \<open>Inr False\<close> skipped,
  \<open>Inl e\<close> an exception, which the caller catches. The case update, the history
  row and the audit entry are written inside one \<^verbatim>\<open>transaction.atomic()\<close>
  block: when reading \<^verbatim>\<open>AuditEventType.CASE_ESCALATED\<close> raises, the block is
  rolled back and the tables are as they were. The audit table itself is not
  modelled.
\<close>

definition escalate_case ::
  "sweep_imports \<Rightarrow> timestamp \<Rightarrow> bool \<Rightarrow> case_db \<Rightarrow> case_row
   \<Rightarrow> (command_exception + bool) \<times> case_db" where
  "escalate_case m now dry_run db c =
     (let old_level = current_level c in
      if old_level \<noteq> CaseLevel_LEVEL_2 \<and> old_level \<noteq> CaseLevel_LEVEL_1 then (Inr False, db)
      else
        (let new_level = (if old_level = CaseLevel_LEVEL_2 then CaseLevel_LEVEL_1
                          else CaseLevel_LEVEL_0) in
         if \<not> fst (can_escalate m c) then (Inr False, db)
         else if \<not> is_sla_expired m c now then (Inr False, db)
         else if dry_run then (Inr True, db)
         else case Case_objects_get (cases db) (case_id c) of
           None \<Rightarrow> (Inl DoesNotExist, db)
         | Some locked_case \<Rightarrow>
             if case_status locked_case \<noteq> OPEN then (Inr False, db)
             else if current_level locked_case \<noteq> old_level then (Inr False, db)
             else
               (let locked1 = locked_case\<lparr>current_level := new_level,
                       escalation_count := escalation_count locked_case + 1,
                       last_escalated_at := Some now,
                       sla_deadline := calculate_sla_deadline_for_level m new_level now\<rparr>;
                    h = \<lparr>h_case = case_id locked1, from_status = Some OPEN, to_status = OPEN,
                          from_level = Some old_level, to_level = Some new_level,
                          changed_by = None,
                          reason = ''SLA expired - auto-escalation'',
                          is_auto_escalation = True\<rparr>;
                    db1 = \<lparr>cases = save_escalation_fields locked1 (cases db),
                           history = history db @ [h]\<rparr>
                in case map_of (audit_event_types m) ''CASE_ESCALATED'' of
                     None \<Rightarrow> (Inl AttributeError, db)
                   | Some event_type \<Rightarrow> (Inr True, db1))))"

text \<open>
  \<^verbatim>\<open>Command.handle\<close>: the query for expired cases, then the loop with its three
  counters. The summary it prints is the record it returns here. The queryset is
  built with \<^verbatim>\<open>select_for_update(skip_locked=True)\<close> and the command runs
  outside a transaction: counting it is allowed, but iterating it raises
  \<^verbatim>\<open>TransactionManagementError\<close> on a backend that has the feature, before any
  case is handled. The rows come newest first (\<^verbatim>\<open>ordering = ['-created_at']\<close>):
  the reverse of the table, which is in insertion order.
\<close>

record sweep_summary =
  total_found :: nat
  escalated_count :: nat
  skipped_count :: nat
  error_count :: nat

definition expired_cases :: "timestamp \<Rightarrow> case_row list \<Rightarrow> case_row list" where
  "expired_cases now tbl =
     rev (filter (\<lambda>c. case_status c = OPEN \<and> sla_deadline c < now
                     \<and> current_level c \<noteq> CaseLevel_LEVEL_0) (Case_objects tbl))"

definition handle_step ::
  "sweep_imports \<Rightarrow> timestamp \<Rightarrow> bool \<Rightarrow> case_db \<times> nat \<times> nat \<times> nat \<Rightarrow> case_row
   \<Rightarrow> case_db \<times> nat \<times> nat \<times> nat" where
  "handle_step m now dry_run st c =
     (case st of (db, escalated, skipped, errors) \<Rightarrow>
        (case escalate_case m now dry_run db c of
           (Inr True, db1) \<Rightarrow> (db1, escalated + 1, skipped, errors)
         | (Inr False, db1) \<Rightarrow> (db1, escalated, skipped + 1, errors)
         | (Inl e, db1) \<Rightarrow> (db1, escalated, skipped, errors + 1)))"

definition handle ::
  "sweep_imports \<Rightarrow> timestamp \<Rightarrow> bool \<Rightarrow> case_db
   \<Rightarrow> (command_exception + sweep_summary) \<times> case_db" where
  "handle m now dry_run db =
     (let expired = expired_cases now (cases db);
          found = length expired in
      if has_select_for_update m then (Inl TransactionManagementError, db)
      else case foldl (handle_step m now dry_run) (db, 0, 0, 0) expired of
        (db1, escalated, skipped, errors) \<Rightarrow>
          (Inr \<lparr>total_found = found, escalated_count = escalated,
                 skipped_count = skipped, error_count = errors\<rparr>, db1))"

text \<open>
  Modelled from the spec: the three \<^verbatim>\<open>Case\<close> methods missing from the sources,
  as sections 4.3 and 4.4 describe them. A case can be escalated when it is OPEN and
  above level 0; its SLA is expired when \<open>sla_deadline < now\<close>; the fresh deadline
  is 24 hours from now, the effect of Forward. The event types are those of
  audit/models.py and the database is SQLite, the default engine of settings.py.
\<close>

definition spec_case_methods :: sweep_imports where
  "spec_case_methods =
     \<lparr>can_escalate = (\<lambda>c. if case_status c \<noteq> OPEN then (False, ''Case is not open'')
                          else if current_level c \<le> 0 then (False, ''Already at highest level'')
                          else (True, [])),
      is_sla_expired = (\<lambda>c now. sla_deadline c < now),
      calculate_sla_deadline_for_level = (\<lambda>level now. now + timedelta_hours 24),
      audit_event_types = AuditEventType,
      has_select_for_update = False\<rparr>"

section \<open>Sequences of operations on the case tables\<close>

datatype operation =
    Create timestamp "user option" uuid uuid dict
  | Solve timestamp "user option" uuid dict
  | Forward timestamp "user option" uuid dict
  | Reject timestamp "user option" uuid dict
  | ForceEscalate timestamp user "uuid list"
  | ForceClose user "uuid list"
  | AutoEscalate timestamp bool

fun apply_operation :: "sweep_imports \<Rightarrow> operation \<Rightarrow> case_db \<Rightarrow> case_db" where
  "apply_operation m (Create now ru new_incident new_case data) db =
     snd (IncidentBroadcastView now db ru new_incident new_case data)"
| "apply_operation m (Solve now ru cid data) db = snd (SolveCaseView now db ru cid data)"
| "apply_operation m (Forward now ru cid data) db = snd (ForwardCaseView now db ru cid data)"
| "apply_operation m (Reject now ru cid data) db = snd (RejectCaseView now db ru cid data)"
| "apply_operation m (ForceEscalate now admin selected) db =
     fst (force_escalate_case now db admin selected)"
| "apply_operation m (ForceClose admin selected) db = fst (force_close_case db admin selected)"
| "apply_operation m (AutoEscalate now dry_run) db = snd (handle m now dry_run db)"

fun run_operations :: "sweep_imports \<Rightarrow> operation list \<Rightarrow> case_db \<Rightarrow> case_db" where
  "run_operations m [] db = db"
| "run_operations m (op # ops) db = run_operations m ops (apply_operation m op db)"

definition empty_db :: case_db where
  "empty_db = \<lparr>cases = [], history = []\<rparr>"

text \<open>The users for whom a sequence of calls creates a session.\<close>

definition called_users :: "session_call list \<Rightarrow> uuid set" where
  "called_users calls = (\<lambda>c. fst (snd c)) ` set calls"

definition example_calls :: "session_call list" where
  "example_calls = [(10, 1, ''phone-a'', None), (20, 2, ''phone-b'', None),
                    (30, 1, ''phone-c'', Some (Map.empty(''device_name'' \<mapsto> ''Pixel'')))]"

text \<open>Concrete sessions, requests and invite codes for evaluation.\<close>

definition example_session :: "uuid \<Rightarrow> string \<Rightarrow> device_session" where
  "example_session uid h =
     \<lparr>session_is_deleted = False, session_user = uid, device_fingerprint_hash = h,
      device_name = [], device_type = [], os_name = [], os_version = [], app_version = [],
      session_is_active = True, refresh_token_jti = [], last_activity_at = 0,
      last_activity_ip = None, invalidated_at = None, invalidation_reason = None\<rparr>"

definition example_request :: "string option \<Rightarrow> request" where
  "example_request fp =
     \<lparr>HTTP_X_DEVICE_FINGERPRINT = fp, HTTP_X_FORWARDED_FOR = None,
      REMOTE_ADDR = Some ''10.0.0.1''\<rparr>"

definition example_invite :: "timestamp \<Rightarrow> nat \<Rightarrow> nat \<Rightarrow> invite_code" where
  "example_invite expiry uses limit =
     \<lparr>invite_id = 1, invite_is_deleted = False, code = ''JM-AB12'', issued_by = 9,
      is_used = False, used_at = None, used_by = None, expires_at = expiry,
      max_uses = limit, use_count = uses\<rparr>"

definition example_auth_db :: auth_db where
  "example_auth_db =
     \<lparr>users = [example_user 1 LEVEL_1, example_user 2 LEVEL_1, example_user 3 LEVEL_0,
               example_user 5 LEVEL_3],
      sessions = [example_session 5 ''hash-a'', example_session 6 ''hash-b'']\<rparr>"

definition example_reason :: dict where
  "example_reason = Map.empty(''reason'' \<mapsto> ''misuse'')"

text \<open>
  The primary-key constraint of the case table, and the shape every operation on
  existing cases has: the rows of \<open>qs\<close> are rewritten by \<open>upd\<close> and the rows
  \<open>hr\<close> gives for them are appended to the history.
\<close>

definition pk_unique :: "case_db \<Rightarrow> bool" where
  "pk_unique db = distinct (map case_id (cases db))"

definition bulk ::
  "(case_row \<Rightarrow> case_row) \<Rightarrow> (case_row \<Rightarrow> history_row list) \<Rightarrow> case_row list \<Rightarrow> case_db \<Rightarrow> case_db" where
  "bulk upd hr qs db =
     \<lparr>cases = map (\<lambda>r. if r \<in> set qs then upd r else r) (cases db),
      history = history db @ concat (map hr qs)\<rparr>"

text \<open>A small case table: two OPEN cases at levels 2 and 0, a solved one, and an OPEN
  case whose deadline is later.\<close>

definition example_db :: case_db where
  "example_db =
     \<lparr>cases = [example_case 1 2 OPEN 100, example_case 2 0 OPEN 100,
               (example_case 3 1 SOLVED 100)\<lparr>solved_at := Some 40, solved_by := Some 8\<rparr>,
               example_case 4 1 OPEN 500],
      history = []\<rparr>"

text \<open>
  What the loops of the admin actions and of the sweep do to one row, and the history
  rows they add for it: the bodies of the loops, read per row. The sweep rewrites a
  row that passes its checks when the audit event type can be read, and counts an
  error for it otherwise.
\<close>

definition force_close_row :: "case_row \<Rightarrow> case_row" where
  "force_close_row c =
     (if case_status c \<in> set [SOLVED, REJECTED, CLOSED] then c else c\<lparr>case_status := CLOSED\<rparr>)"

definition force_close_history :: "user \<Rightarrow> case_row \<Rightarrow> history_row list" where
  "force_close_history request_user c =
     (if case_status c \<in> set [SOLVED, REJECTED, CLOSED] then []
      else [\<lparr>h_case = case_id c, from_status = Some (case_status c), to_status = CLOSED,
             from_level = Some (current_level c), to_level = Some (current_level c),
             changed_by = Some (user_id request_user),
             reason = ''Admin force closed by '' @ user_identifier request_user,
             is_auto_escalation = False\<rparr>])"

definition force_escalate_row :: "timestamp \<Rightarrow> case_row \<Rightarrow> case_row" where
  "force_escalate_row now c =
     (if case_status c \<noteq> OPEN \<or> current_level c = 0 then c
      else c\<lparr>current_level := current_level c - 1,
             escalation_count := escalation_count c + 1,
             last_escalated_at := Some now,
             sla_deadline := now + timedelta_hours 24\<rparr>)"

definition force_escalate_history :: "user \<Rightarrow> case_row \<Rightarrow> history_row list" where
  "force_escalate_history request_user c =
     (if case_status c \<noteq> OPEN \<or> current_level c = 0 then []
      else [\<lparr>h_case = case_id c, from_status = Some (case_status c),
             to_status = case_status c,
             from_level = Some (current_level c), to_level = Some (current_level c - 1),
             changed_by = Some (user_id request_user),
             reason = ''Admin force escalation by '' @ user_identifier request_user,
             is_auto_escalation = False\<rparr>])"

definition passes_checks :: "sweep_imports \<Rightarrow> timestamp \<Rightarrow> case_row \<Rightarrow> bool" where
  "passes_checks m now c =
     ((current_level c = 2 \<or> current_level c = 1) \<and> fst (can_escalate m c)
      \<and> is_sla_expired m c now \<and> case_status c = OPEN)"

definition auto_escalate_cond :: "sweep_imports \<Rightarrow> timestamp \<Rightarrow> case_row \<Rightarrow> bool" where
  "auto_escalate_cond m now c =
     (passes_checks m now c \<and> map_of (audit_event_types m) ''CASE_ESCALATED'' \<noteq> None)"

definition auto_escalate_row :: "sweep_imports \<Rightarrow> timestamp \<Rightarrow> case_row \<Rightarrow> case_row" where
  "auto_escalate_row m now c =
     (if auto_escalate_cond m now c
      then c\<lparr>current_level := current_level c - 1,
             escalation_count := escalation_count c + 1,
             last_escalated_at := Some now,
             sla_deadline := calculate_sla_deadline_for_level m (current_level c - 1) now\<rparr>
      else c)"

definition auto_escalate_history :: "sweep_imports \<Rightarrow> timestamp \<Rightarrow> case_row \<Rightarrow> history_row list" where
  "auto_escalate_history m now c =
     (if auto_escalate_cond m now c
      then [\<lparr>h_case = case_id c, from_status = Some OPEN, to_status = OPEN,
             from_level = Some (current_level c), to_level = Some (current_level c - 1),
             changed_by = None, reason = ''SLA expired - auto-escalation'',
             is_auto_escalation = True\<rparr>]
      else [])"

definition sweep_count :: "sweep_imports \<Rightarrow> timestamp \<Rightarrow> nat \<times> nat \<times> nat \<Rightarrow> case_row \<Rightarrow> nat \<times> nat \<times> nat" where
  "sweep_count m now k c =
     (case k of (escalated, skipped, errors) \<Rightarrow>
        if auto_escalate_cond m now c then (escalated + 1, skipped, errors)
        else if passes_checks m now c then (escalated, skipped, errors + 1)
        else (escalated, skipped + 1, errors))"

text \<open>
  The sweep as the specification words it: the cases it must escalate at time \<open>t\<close>
  (OPEN, deadline before \<open>t\<close>, level 2 or 1, visible to \<^verbatim>\<open>Case.objects\<close>),
  what escalating by one level does to a row, and the history entry it leaves, with
  no actor and the auto-escalation flag set. \<open>case_methods_as_specified\<close> is what
  sections 4.3 and 4.4 say of the three missing methods: an OPEN case above level 0
  can be escalated, a deadline before \<open>t\<close> is expired at \<open>t\<close>, and a fresh
  deadline is not in the past.
\<close>

definition eligible_for_auto_escalation :: "timestamp \<Rightarrow> case_row \<Rightarrow> bool" where
  "eligible_for_auto_escalation t c =
     (\<not> case_is_deleted c \<and> case_status c = OPEN \<and> sla_deadline c < t
      \<and> 0 < current_level c \<and> current_level c \<le> 2)"

definition escalated_one_level :: "sweep_imports \<Rightarrow> timestamp \<Rightarrow> case_row \<Rightarrow> case_row" where
  "escalated_one_level m t c =
     c\<lparr>current_level := current_level c - 1,
       escalation_count := escalation_count c + 1,
       last_escalated_at := Some t,
       sla_deadline := calculate_sla_deadline_for_level m (current_level c - 1) t\<rparr>"

definition auto_escalation_entry :: "case_row \<Rightarrow> history_row" where
  "auto_escalation_entry c =
     \<lparr>h_case = case_id c, from_status = Some OPEN, to_status = OPEN,
      from_level = Some (current_level c), to_level = Some (current_level c - 1),
      changed_by = None, reason = ''SLA expired - auto-escalation'',
      is_auto_escalation = True\<rparr>"

definition case_methods_as_specified :: "sweep_imports \<Rightarrow> bool" where
  "case_methods_as_specified m =
     ((\<forall>c. case_status c = OPEN \<and> 0 < current_level c \<longrightarrow> fst (can_escalate m c))
      \<and> (\<forall>c t. sla_deadline c < t \<longrightarrow> is_sla_expired m c t)
      \<and> (\<forall>l t. t \<le> calculate_sla_deadline_for_level m l t))"

text \<open>
  History rows of one case are in level order when a later row never records a
  higher level than an earlier one (rows that record no level are not compared).
  \<open>case_by_id\<close> reads a case by primary key. \<open>well_behaved\<close> is what every
  row rewrite of the engine satisfies: the key stays, the level stays or drops by one
  from a nonzero level of an OPEN case, and one history row is written exactly when
  the row changes, for that case, with a level between the new and the old one. An operation either
  rewrites rows in this way (\<open>row_update\<close>) or inserts a fresh case at level 2
  with its first history row (\<open>row_insert\<close>). \<open>case_inv\<close> is the invariant
  of the two tables.
\<close>

definition level_order :: "history_row \<Rightarrow> history_row \<Rightarrow> bool" where
  "level_order h1 h2 =
     (h_case h1 = h_case h2 \<longrightarrow>
        (case to_level h1 of None \<Rightarrow> True
         | Some a \<Rightarrow> (case to_level h2 of None \<Rightarrow> True | Some b \<Rightarrow> b \<le> a)))"

definition case_by_id :: "case_db \<Rightarrow> uuid \<Rightarrow> case_row option" where
  "case_by_id db i = find (\<lambda>c. case_id c = i) (cases db)"

definition well_behaved ::
  "(case_row \<Rightarrow> case_row) \<Rightarrow> (case_row \<Rightarrow> history_row list) \<Rightarrow> case_row list \<Rightarrow> bool" where
  "well_behaved upd hr qs =
     (\<forall>c \<in> set qs.
        case_id (upd c) = case_id c
        \<and> (current_level (upd c) = current_level c
            \<or> (case_status c = OPEN \<and> current_level c \<noteq> 0
                \<and> current_level (upd c) = current_level c - 1))
        \<and> length (hr c) \<le> 1
        \<and> (hr c = []) = (upd c = c)
        \<and> (\<forall>h \<in> set (hr c). h_case h = case_id c
              \<and> (\<forall>l. to_level h = Some l \<longrightarrow> current_level (upd c) \<le> l \<and> l \<le> current_level c)))"

definition row_update :: "case_db \<Rightarrow> case_db \<Rightarrow> bool" where
  "row_update db db' =
     (\<exists>upd hr qs. well_behaved upd hr qs \<and> set qs \<subseteq> set (cases db)
        \<and> distinct (map case_id qs) \<and> db' = bulk upd hr qs db)"

definition row_insert :: "case_db \<Rightarrow> case_db \<Rightarrow> bool" where
  "row_insert db db' =
     (\<exists>c h. case_id c \<notin> case_id ` set (cases db) \<and> current_level c = 2
        \<and> h_case h = case_id c \<and> to_level h = Some 2
        \<and> db' = \<lparr>cases = cases db @ [c], history = history db @ [h]\<rparr>)"

definition case_inv :: "case_db \<Rightarrow> bool" where
  "case_inv db =
     (pk_unique db
      \<and> (\<forall>c \<in> set (cases db). 0 \<le> current_level c \<and> current_level c \<le> 2)
      \<and> sorted_wrt level_order (history db)
      \<and> (\<forall>h \<in> set (history db). \<exists>c \<in> set (cases db). case_id c = h_case h
            \<and> (\<forall>l. to_level h = Some l \<longrightarrow> current_level c \<le> l)))"

text \<open>
  The scenario of the specification: a citizen submits an incident, a level-2 officer
  forwards the case, and a sweep runs after the new deadline; an administrator then
  force-escalates the case.
\<close>

definition example_submission :: operation where
  "example_submission =
     Create 0 (Some (example_user 5 LEVEL_3)) 10 1
       (Map.empty(''text_content'' \<mapsto> ''pothole on Main St''))"

definition example_forward :: operation where
  "example_forward =
     Forward 50 (Some (example_user 7 LEVEL_2)) 1
       (Map.empty(''reason'' \<mapsto> ''needs senior review''))"

definition example_operations :: "operation list" where
  "example_operations =
     [example_submission, example_forward, AutoEscalate (timedelta_hours 24 + 51) False,
      ForceEscalate (timedelta_hours 24 + 60) (example_user 9 LEVEL_0) [1]]"

text \<open>
  The history rows of one case, and the number of operations of a sequence that
  changed that case's row (its insertion included).
\<close>

definition history_rows_of :: "uuid \<Rightarrow> case_db \<Rightarrow> history_row list" where
  "history_rows_of i db = filter (\<lambda>h. h_case h = i) (history db)"

fun transitions_applied :: "sweep_imports \<Rightarrow> uuid \<Rightarrow> operation list \<Rightarrow> case_db \<Rightarrow> nat" where
  "transitions_applied m i [] db = 0"
| "transitions_applied m i (op # ops) db =
     (if case_by_id (apply_operation m op db) i = case_by_id db i then 0 else 1)
     + transitions_applied m i ops (apply_operation m op db)"

section \<open>Visibility: what each role sees\<close>

lemma visible_level_2_officer:
  "role u = LEVEL_2 \<Longrightarrow>
   set (visible_cases_for_user u tbl) = {c \<in> set tbl. \<not> case_is_deleted c \<and> current_level c = 2}"
  by (auto simp: visible_cases_for_user_def is_level_2_def is_level_2_captain_def)

lemma visible_level_1:
  "role u = LEVEL_1 \<Longrightarrow>
   set (visible_cases_for_user u tbl) = {c \<in> set tbl. \<not> case_is_deleted c \<and> current_level c = 1}"
  by (auto simp: visible_cases_for_user_def is_level_2_def is_level_2_captain_def is_level_1_def)

lemma visible_level_0:
  "role u = LEVEL_0 \<Longrightarrow>
   set (visible_cases_for_user u tbl) = {c \<in> set tbl. \<not> case_is_deleted c \<and> current_level c = 0}"
  by (auto simp: visible_cases_for_user_def is_level_2_def is_level_2_captain_def
      is_level_1_def is_level_0_def)

lemma visible_janmitra:
  "role u = LEVEL_3 \<Longrightarrow> CaseListView_get_queryset u f tbl = []"
  by (simp add: CaseListView_get_queryset_def is_janmitra_def)

lemma visible_captain:
  "role u = LEVEL_2_CAPTAIN \<Longrightarrow>
   set (visible_cases_for_user u tbl) = {c \<in> set tbl. \<not> case_is_deleted c \<and> 2 \<le> current_level c}"
  by (auto simp: visible_cases_for_user_def is_level_2_def is_level_2_captain_def)

text \<open>
  Claim C1. The listing is meant to partition the cases by role, the captain seeing
  every case of level 2, 1 and 0. For a captain and one OPEN case that has been
  escalated to level 1, \<^verbatim>\<open>visible_cases_for_user\<close> (and so the case list) returns
  no row, because it keeps \<open>current_level \<ge> 2\<close>; the open-cases dashboard and the
  incident feed, which state the same rule with \<open>current_level \<le> 2\<close>, both
  return the case.
\<close>

theorem captain_misses_escalated_case:
  "visible_cases_for_user (example_user 7 LEVEL_2_CAPTAIN) [example_case 1 1 OPEN 0] = []
   \<and> CaseListView_get_queryset (example_user 7 LEVEL_2_CAPTAIN) None [example_case 1 1 OPEN 0] = []
   \<and> OpenCasesView_get_queryset (example_user 7 LEVEL_2_CAPTAIN) [example_case 1 1 OPEN 0]
       = [example_case 1 1 OPEN 0]
   \<and> IncidentFeedView_get_queryset (example_user 7 LEVEL_2_CAPTAIN) [example_case 1 1 OPEN 0]
       = [example_case 1 1 OPEN 0]"
  by (simp add: visible_cases_for_user_def CaseListView_get_queryset_def
      OpenCasesView_get_queryset_def IncidentFeedView_get_queryset_def
      example_user_def example_case_def is_janmitra_def is_level_2_def
      is_level_2_captain_def CaseLevel_LEVEL_2_def)

section \<open>Session singularity\<close>

lemma active_sessions_Cons:
  "active_sessions uid (s # tbl) =
     (if \<not> session_is_deleted s \<and> session_user s = uid \<and> session_is_active s
      then s # active_sessions uid tbl else active_sessions uid tbl)"
  by (simp add: active_sessions_def DeviceSession_objects_def)

lemma active_sessions_Nil: "active_sessions uid [] = []"
  by (simp add: active_sessions_def DeviceSession_objects_def)

lemma active_sessions_append:
  "active_sessions uid (xs @ ys) = active_sessions uid xs @ active_sessions uid ys"
  by (simp add: active_sessions_def DeviceSession_objects_def)

lemma active_sessions_invalidated:
  "active_sessions uid (invalidate_active now why uid tbl) = []"
  by (induction tbl) (simp_all add: invalidate_active_def active_sessions_Cons active_sessions_Nil)

lemma active_sessions_invalidated_other:
  "v \<noteq> uid \<Longrightarrow> active_sessions v (invalidate_active now why uid tbl) = active_sessions v tbl"
  by (induction tbl) (simp_all add: invalidate_active_def active_sessions_Cons active_sessions_Nil)

lemma create_session_active:
  "active_sessions uid (snd (create_session sha256 now tbl uid fp info))
     = [fst (create_session sha256 now tbl uid fp info)]"
  by (simp add: create_session_def Let_def active_sessions_append active_sessions_invalidated
      active_sessions_Cons active_sessions_Nil)

lemma create_session_active_other:
  "v \<noteq> uid \<Longrightarrow>
   active_sessions v (snd (create_session sha256 now tbl uid fp info)) = active_sessions v tbl"
  by (simp add: create_session_def Let_def active_sessions_append
      active_sessions_invalidated_other active_sessions_Cons active_sessions_Nil)

lemma create_sessions_untouched:
  "uid \<notin> called_users calls \<Longrightarrow>
   active_sessions uid (create_sessions sha256 calls tbl) = active_sessions uid tbl"
proof (induction calls arbitrary: tbl)
  case Nil
  show ?case by simp
next
  case (Cons call calls)
  obtain now u fp info where call: "call = (now, u, fp, info)"
    by (cases call) auto
  from Cons.prems call have ne: "uid \<noteq> u" and rest: "uid \<notin> called_users calls"
    by (auto simp: called_users_def)
  show ?case
    using Cons.IH [OF rest] ne by (simp add: call create_session_active_other)
qed

lemma create_sessions_one_active:
  "uid \<in> called_users calls \<Longrightarrow>
   length (active_sessions uid (create_sessions sha256 calls tbl)) = 1"
proof (induction calls arbitrary: tbl)
  case Nil
  then show ?case by (simp add: called_users_def)
next
  case (Cons call calls)
  obtain now u fp info where call: "call = (now, u, fp, info)"
    by (cases call) auto
  show ?case
  proof (cases "uid \<in> called_users calls")
    case True
    then show ?thesis using Cons.IH by (simp add: call)
  next
    case False
    with Cons.prems call have "u = uid" by (auto simp: called_users_def)
    then show ?thesis
      using create_sessions_untouched [OF False] by (simp add: call create_session_active)
  qed
qed

lemma invalidated_rows:
  "s \<in> set (active_sessions uid tbl) \<Longrightarrow>
   s\<lparr>session_is_active := False, invalidated_at := Some now, invalidation_reason := Some why\<rparr>
     \<in> set (invalidate_active now why uid tbl)"
  by (auto simp: invalidate_active_def active_sessions_def DeviceSession_objects_def)

lemma create_session_no_deleted:
  "\<forall>s \<in> set tbl. \<not> session_is_deleted s \<Longrightarrow>
   \<forall>s \<in> set (snd (create_session sha256 now tbl uid fp info)). \<not> session_is_deleted s"
  by (auto simp: create_session_def Let_def invalidate_active_def)

lemma create_sessions_no_deleted:
  "\<forall>s \<in> set tbl. \<not> session_is_deleted s \<Longrightarrow>
   \<forall>s \<in> set (create_sessions sha256 calls tbl). \<not> session_is_deleted s"
proof (induction calls arbitrary: tbl)
  case Nil
  then show ?case by simp
next
  case (Cons call calls)
  obtain now u fp info where call: "call = (now, u, fp, info)"
    by (cases call) auto
  show ?case
    using Cons.IH [OF create_session_no_deleted [OF Cons.prems, of sha256 now u fp info]]
    by (simp add: call)
qed

lemma active_sessions_all_rows:
  "\<forall>s \<in> set tbl. \<not> session_is_deleted s \<Longrightarrow>
   active_sessions uid tbl = filter (\<lambda>s. session_user s = uid \<and> session_is_active s) tbl"
proof -
  assume "\<forall>s \<in> set tbl. \<not> session_is_deleted s"
  then have "DeviceSession_objects tbl = tbl"
    by (simp add: DeviceSession_objects_def)
  then show ?thesis by (simp add: active_sessions_def)
qed

lemma create_sessions_one_active_row:
  assumes "uid \<in> called_users calls" and "\<forall>s \<in> set tbl. \<not> session_is_deleted s"
  shows "length (filter (\<lambda>s. session_user s = uid \<and> session_is_active s)
           (create_sessions sha256 calls tbl)) = 1"
  using create_sessions_one_active [OF assms(1), of sha256 tbl]
    active_sessions_all_rows [OF create_sessions_no_deleted [OF assms(2), of sha256 calls], of uid]
  by simp

text \<open>
  Claim C3. Whatever the session table holds, after any sequence of
  \<^verbatim>\<open>create_session\<close> calls every user for whom the sequence created a session
  has exactly one active row among the rows \<^verbatim>\<open>DeviceSession.objects\<close> shows;
  when no row of the table is soft-deleted (nothing in the sources soft-deletes a
  session) that is exactly one active row in the whole table. One call leaves the
  new row as the user's only active one, stores the SHA-256 digest of the
  fingerprint in it, and marks every row that was active for the user as invalidated
  with reason \<^verbatim>\<open>NEW_DEVICE\<close>.
\<close>

theorem session_singularity:
  "(uid \<in> called_users calls \<longrightarrow>
      length (active_sessions uid (create_sessions sha256 calls tbl)) = 1)
   \<and> (uid \<in> called_users calls \<and> (\<forall>s \<in> set tbl. \<not> session_is_deleted s) \<longrightarrow>
        length (filter (\<lambda>s. session_user s = uid \<and> session_is_active s)
          (create_sessions sha256 calls tbl)) = 1)
   \<and> active_sessions uid (snd (create_session sha256 now tbl uid fp info))
       = [fst (create_session sha256 now tbl uid fp info)]
   \<and> device_fingerprint_hash (fst (create_session sha256 now tbl uid fp info)) = sha256 fp
   \<and> (\<forall>s \<in> set (active_sessions uid tbl).
        s\<lparr>session_is_active := False, invalidated_at := Some now,
          invalidation_reason := Some NEW_DEVICE\<rparr>
          \<in> set (snd (create_session sha256 now tbl uid fp info)))"
proof (intro conjI impI ballI)
  assume "uid \<in> called_users calls"
  then show "length (active_sessions uid (create_sessions sha256 calls tbl)) = 1"
    by (rule create_sessions_one_active)
next
  assume "uid \<in> called_users calls \<and> (\<forall>s \<in> set tbl. \<not> session_is_deleted s)"
  then show "length (filter (\<lambda>s. session_user s = uid \<and> session_is_active s)
          (create_sessions sha256 calls tbl)) = 1"
    by (simp add: create_sessions_one_active_row)
next
  show "active_sessions uid (snd (create_session sha256 now tbl uid fp info))
       = [fst (create_session sha256 now tbl uid fp info)]"
    by (rule create_session_active)
next
  show "device_fingerprint_hash (fst (create_session sha256 now tbl uid fp info)) = sha256 fp"
    by (simp add: create_session_def Let_def hash_fingerprint_def)
next
  fix s assume "s \<in> set (active_sessions uid tbl)"
  then show "s\<lparr>session_is_active := False, invalidated_at := Some now,
          invalidation_reason := Some NEW_DEVICE\<rparr>
          \<in> set (snd (create_session sha256 now tbl uid fp info))"
    by (simp add: create_session_def Let_def invalidated_rows)
qed

theorem session_singularity_witness:
  "1 \<in> called_users example_calls
   \<and> length (active_sessions 1 (create_sessions rev example_calls [])) = 1
   \<and> length (filter (\<lambda>s. session_user s = 1 \<and> session_is_active s)
        (create_sessions rev example_calls [])) = 1
   \<and> map device_fingerprint_hash (active_sessions 1 (create_sessions rev example_calls []))
       = [''c-enohp'']"
proof -
  have h: "1 \<in> called_users example_calls"
    by (simp add: called_users_def example_calls_def)
  note t = session_singularity [of 1 example_calls rev "[]" 0 "[]" None]
  have "length (active_sessions 1 (create_sessions rev example_calls [])) = 1"
    using t h by blast
  moreover have "length (filter (\<lambda>s. session_user s = 1 \<and> session_is_active s)
        (create_sessions rev example_calls [])) = 1"
    using t h by simp
  moreover have "map device_fingerprint_hash (active_sessions 1 (create_sessions rev example_calls []))
       = [''c-enohp'']"
    by (simp add: example_calls_def create_session_def Let_def invalidate_active_def
        active_sessions_def DeviceSession_objects_def hash_fingerprint_def dict_get_def)
  ultimately show ?thesis using h by simp
qed

section \<open>Invite codes\<close>

lemma is_valid_iff:
  "is_valid now c = (\<not> invite_is_deleted c \<and> use_count c < max_uses c \<and> now \<le> expires_at c)"
  by (auto simp: is_valid_def)

lemma validate_invite_code_Inr:
  "validate_invite_code now tbl v = Inr c \<longleftrightarrow>
     (find (\<lambda>i. \<not> invite_is_deleted i \<and> code i = upper v) tbl = Some c \<and> is_valid now c)"
  by (auto simp: validate_invite_code_def split: option.splits)

lemma useInvite_Inr:
  "useInvite now tbl v uid = Inr tbl' \<longleftrightarrow>
     (\<exists>c. find (\<lambda>i. \<not> invite_is_deleted i \<and> code i = upper v) tbl = Some c \<and> is_valid now c
          \<and> tbl' = save_invite (use now uid c) tbl)"
proof -
  have "useInvite now tbl v uid = Inr tbl' \<longleftrightarrow>
     (\<exists>c. validate_invite_code now tbl v = Inr c \<and> tbl' = save_invite (use now uid c) tbl)"
    by (auto simp: useInvite_def split: sum.splits)
  then show ?thesis by (simp add: validate_invite_code_Inr)
qed

lemma use_effect:
  "use_count (use now uid c) = use_count c + 1
   \<and> is_used (use now uid c) = (is_used c \<or> max_uses c \<le> use_count c + 1)
   \<and> used_by (use now uid c) = Some uid \<and> used_at (use now uid c) = Some now"
  by (simp add: use_def Let_def)

text \<open>
  Claim C9, amended. An invite code is valid if and only if it is not soft-deleted,
  \<open>use_count < max_uses\<close> and \<open>now \<le> expires_at\<close>: a code whose expiry
  equals the current instant is still valid. Using an invite succeeds exactly when a
  row with the (upper-cased) code is visible and valid, and then stores the used row;
  every other outcome is a \<^verbatim>\<open>ValidationError\<close>. \<^verbatim>\<open>use\<close> adds one to
  \<open>use_count\<close>, and on a valid, unused code it sets \<open>is_used\<close> exactly
  when the count reaches \<open>max_uses\<close>.
\<close>

theorem invite_validity:
  "is_valid now c = (\<not> invite_is_deleted c \<and> use_count c < max_uses c \<and> now \<le> expires_at c)
   \<and> (useInvite now tbl v uid = Inr tbl' \<longleftrightarrow>
        (\<exists>i. find (\<lambda>i. \<not> invite_is_deleted i \<and> code i = upper v) tbl = Some i \<and> is_valid now i
             \<and> tbl' = save_invite (use now uid i) tbl))
   \<and> use_count (use now uid c) = use_count c + 1
   \<and> (is_valid now c \<and> \<not> is_used c \<longrightarrow>
        is_used (use now uid c) = (use_count (use now uid c) = max_uses c))"
proof (intro conjI impI)
  show "is_valid now c = (\<not> invite_is_deleted c \<and> use_count c < max_uses c \<and> now \<le> expires_at c)"
    by (rule is_valid_iff)
  show "useInvite now tbl v uid = Inr tbl' \<longleftrightarrow>
        (\<exists>i. find (\<lambda>i. \<not> invite_is_deleted i \<and> code i = upper v) tbl = Some i \<and> is_valid now i
             \<and> tbl' = save_invite (use now uid i) tbl)"
    by (rule useInvite_Inr)
  show "use_count (use now uid c) = use_count c + 1"
    by (simp add: use_effect)
next
  assume "is_valid now c \<and> \<not> is_used c"
  then have "use_count c < max_uses c" and "\<not> is_used c"
    by (simp_all add: is_valid_iff)
  then show "is_used (use now uid c) = (use_count (use now uid c) = max_uses c)"
    by (auto simp: use_effect)
qed

text \<open>
  Claim C9 as stated requires \<open>now < expires_at\<close>. A fresh single-use code whose
  \<open>expires_at\<close> is the current instant is valid, and registration with it succeeds.
\<close>

theorem invite_valid_at_expiry:
  "is_valid 100 (example_invite 100 0 1)
   \<and> \<not> (100 < expires_at (example_invite 100 0 1))
   \<and> useInvite 100 [example_invite 100 0 1] ''jm-ab12'' 7
       = Inr [(example_invite 100 1 1)\<lparr>is_used := True, used_at := Some 100, used_by := Some 7\<rparr>]"
  by code_simp

theorem invite_validity_witness:
  "is_valid 50 (example_invite 100 1 2) \<and> \<not> is_used (example_invite 100 1 2)
   \<and> is_used (use 50 7 (example_invite 100 1 2))
   \<and> use_count (use 50 7 (example_invite 100 1 2)) = 2
   \<and> \<not> is_valid 101 (example_invite 100 1 2)
   \<and> \<not> is_valid 50 (example_invite 100 2 2)"
proof -
  have v: "is_valid 50 (example_invite 100 1 2) \<and> \<not> is_used (example_invite 100 1 2)"
    by (simp add: is_valid_def example_invite_def)
  have m: "max_uses (example_invite 100 1 2) = 2" and u: "use_count (example_invite 100 1 2) = 1"
    by (simp_all add: example_invite_def)
  note t = invite_validity [of 50 "example_invite 100 1 2" "[]" "[]" 7 "[]"]
  from t have c: "use_count (use 50 7 (example_invite 100 1 2)) = 2"
    using u by simp
  from t v have "is_used (use 50 7 (example_invite 100 1 2))
      = (use_count (use 50 7 (example_invite 100 1 2)) = max_uses (example_invite 100 1 2))"
    by blast
  with c m have "is_used (use 50 7 (example_invite 100 1 2))" by simp
  moreover have "\<not> is_valid 101 (example_invite 100 1 2)"
    using invite_validity [of 101 "example_invite 100 1 2" "[]" "[]" 7 "[]"]
    by (simp add: example_invite_def)
  moreover have "\<not> is_valid 50 (example_invite 100 2 2)"
    using invite_validity [of 50 "example_invite 100 2 2" "[]" "[]" 7 "[]"]
    by (simp add: example_invite_def)
  ultimately show ?thesis using v c by simp
qed

section \<open>Revoking a user\<close>



lemma find_save_user:
  assumes "find (\<lambda>u. \<not> user_is_deleted u \<and> user_id u = tid) tbl = Some t"
    and "user_id t1 = tid" and "\<not> user_is_deleted t1"
  shows "find (\<lambda>u. \<not> user_is_deleted u \<and> user_id u = tid)
           (map (\<lambda>r. if user_id r = tid then t1 else r) tbl) = Some t1"
  using assms by (induction tbl) (auto split: if_splits)

lemma User_objects_get_props:
  "User_objects_get tbl tid = Some t \<Longrightarrow> user_id t = tid \<and> \<not> user_is_deleted t"
  unfolding User_objects_get_def by (auto dest: find_Some_iff [THEN iffD1])

lemma revoke_access_user:
  assumes "User_objects_get (users db) tid = Some target"
  shows "User_objects_get (users (revoke_access now db target by_user why)) tid
     = Some (target\<lparr>status := REVOKED, revoked_at := Some now, revoked_by := Some by_user,
                    revocation_reason := why, is_active := False\<rparr>)"
proof -
  from User_objects_get_props [OF assms] have id: "user_id target = tid"
    and nd: "\<not> user_is_deleted target" by simp_all
  show ?thesis
    using assms find_save_user [of tid "users db" target
        "target\<lparr>status := REVOKED, revoked_at := Some now, revoked_by := Some by_user,
                    revocation_reason := why, is_active := False\<rparr>"] id nd
    by (simp add: revoke_access_def Let_def save_user_def User_objects_get_def)
qed








section \<open>Authentication of a revoked user\<close>

lemma check_user_status_revoked:
  "status u = REVOKED \<Longrightarrow> check_user_status u = Some (InvalidToken access_revoked)"
  by (simp add: check_user_status_def is_revoked_def)

lemma authenticate_inactive:
  "User_objects_get (users db) uid = Some u \<Longrightarrow> \<not> is_active u \<Longrightarrow>
   authenticate sha256 now db req (Validated uid tok)
     = (Inl (AuthenticationFailed user_inactive), db)"
  by (simp add: authenticate_def JWTAuthentication_authenticate_def get_user_def)

lemma authenticate_status_first:
  "User_objects_get (users db) uid = Some u \<Longrightarrow> is_active u \<Longrightarrow> check_user_status u = Some e \<Longrightarrow>
   authenticate sha256 now db req (Validated uid tok) = (Inl e, db)"
  by (simp add: authenticate_def JWTAuthentication_authenticate_def get_user_def)

text \<open>
  The status checks do run before the device binding: a user the parent class lets
  through and whose status is REVOKED gets \<^verbatim>\<open>access_revoked\<close> whatever the
  fingerprint header and the session table are.
\<close>

lemma revoked_but_active:
  "User_objects_get (users db) uid = Some u \<Longrightarrow> is_active u \<Longrightarrow> status u = REVOKED \<Longrightarrow>
   authenticate sha256 now db req (Validated uid tok)
     = (Inl (InvalidToken access_revoked), db)"
  by (simp add: authenticate_status_first check_user_status_revoked)

text \<open>
  \<^verbatim>\<open>access_revoked\<close> is the answer only for a user with status REVOKED whose
  \<^verbatim>\<open>is_active\<close> flag is still set.
\<close>

lemma access_revoked_iff:
  "fst (authenticate sha256 now db req (Validated uid tok)) = Inl (InvalidToken access_revoked)
   \<longleftrightarrow> (\<exists>u. User_objects_get (users db) uid = Some u \<and> is_active u \<and> status u = REVOKED)"
proof (cases "User_objects_get (users db) uid")
  case None
  then show ?thesis
    by (simp add: authenticate_def JWTAuthentication_authenticate_def get_user_def)
next
  case (Some u)
  show ?thesis
  proof (cases "is_active u")
    case False
    with Some show ?thesis by (simp add: authenticate_inactive)
  next
    case True
    show ?thesis
    proof (cases "status u = REVOKED")
      case True
      with Some \<open>is_active u\<close> show ?thesis by (simp add: revoked_but_active)
    next
      case False
      with Some \<open>is_active u\<close> show ?thesis
        by (auto simp: authenticate_def JWTAuthentication_authenticate_def get_user_def
            check_user_status_def is_revoked_def validate_device_binding_def Let_def
            split: option.splits list.splits if_splits)
    qed
  qed
qed

text \<open>
  \<^verbatim>\<open>User.revoke_access\<close> clears \<^verbatim>\<open>is_active\<close> together with setting the
  status, so a user it has revoked is stopped by the parent class with
  \<^verbatim>\<open>user_inactive\<close>, whatever the request carries.
\<close>

lemma authenticate_after_revoke_access:
  assumes "User_objects_get (users db) tid = Some target"
  shows "authenticate sha256 t (revoke_access now db target by_user why) req (Validated tid tok)
     = (Inl (AuthenticationFailed user_inactive), revoke_access now db target by_user why)"
  by (rule authenticate_inactive [OF revoke_access_user [OF assms]]) simp

text \<open>
  Claim C4. A JanMitra member with an active session authenticates with a valid
  token and the matching fingerprint. Once a LEVEL_1 authority has revoked that
  member through \<^verbatim>\<open>RevokeUserView\<close>, the member's row has status REVOKED and
  \<^verbatim>\<open>is_active\<close> false, and the same token is rejected with the parent class's
  \<^verbatim>\<open>user_inactive\<close>, with or without the fingerprint header, not with
  \<^verbatim>\<open>access_revoked\<close>. The same row with \<^verbatim>\<open>is_active\<close> left true would
  get \<^verbatim>\<open>access_revoked\<close>.
\<close>

theorem revoked_user_gets_user_inactive:
  "fst (authenticate rev 60 example_auth_db (example_request (Some ''a-hsah''))
          (Validated 5 ''token''))
     = Inr (Some (example_user 5 LEVEL_3, ''token''))
   \<and> map_option (\<lambda>u. (status u, is_active u))
        (User_objects_get (users (snd (RevokeUserView strip 70 example_auth_db
            (Some (example_user 1 LEVEL_1)) 5 example_reason))) 5)
       = Some (REVOKED, False)
   \<and> fst (authenticate rev 80
          (snd (RevokeUserView strip 70 example_auth_db (Some (example_user 1 LEVEL_1)) 5
                  example_reason))
          (example_request (Some ''a-hsah'')) (Validated 5 ''token''))
       = Inl (AuthenticationFailed user_inactive)
   \<and> fst (authenticate rev 80
          (snd (RevokeUserView strip 70 example_auth_db (Some (example_user 1 LEVEL_1)) 5
                  example_reason))
          (example_request None) (Validated 5 ''token''))
       = Inl (AuthenticationFailed user_inactive)
   \<and> fst (authenticate rev 80
          (example_auth_db\<lparr>users := [(example_user 5 LEVEL_3)\<lparr>status := REVOKED\<rparr>]\<rparr>)
          (example_request None) (Validated 5 ''token''))
       = Inl (InvalidToken access_revoked)"
  by code_simp

section \<open>Tables with a primary key\<close>

lemma same_id_same_row:
  "distinct (map case_id tbl) \<Longrightarrow> c \<in> set tbl \<Longrightarrow> r \<in> set tbl \<Longrightarrow> case_id r = case_id c \<Longrightarrow> r = c"
  by (simp add: inj_on_def distinct_map)

lemma Case_objects_get_row:
  assumes "distinct (map case_id tbl)" and "c \<in> set tbl" and "\<not> case_is_deleted c"
  shows "Case_objects_get tbl (case_id c) = Some c"
proof -
  have "c \<in> set (Case_objects tbl)"
    using assms by (simp add: Case_objects_def)
  then obtain r where r: "find (\<lambda>x. case_id x = case_id c) (Case_objects tbl) = Some r"
    by (cases "find (\<lambda>x. case_id x = case_id c) (Case_objects tbl)") (auto simp: find_None_iff)
  then have "r \<in> set tbl" and "case_id r = case_id c"
    by (auto simp: find_Some_iff Case_objects_def dest: nth_mem)
  then have "r = c" using same_id_same_row [OF assms(1,2)] by blast
  with r show ?thesis by (simp add: Case_objects_get_def)
qed

lemma Case_objects_get_SomeD:
  "Case_objects_get tbl cid = Some c \<Longrightarrow> c \<in> set tbl \<and> \<not> case_is_deleted c \<and> case_id c = cid"
  by (auto simp: Case_objects_get_def Case_objects_def find_Some_iff dest: nth_mem)

lemma save_case_row:
  assumes "distinct (map case_id tbl)" and "c \<in> set tbl" and "case_id c1 = case_id c"
  shows "save_case c1 tbl = map (\<lambda>r. if r = c then c1 else r) tbl"
  unfolding save_case_def
proof (rule map_cong [OF refl])
  fix r assume "r \<in> set tbl"
  then show "(if case_id r = case_id c1 then c1 else r) = (if r = c then c1 else r)"
    using same_id_same_row [OF assms(1,2)] assms(3) by auto
qed

lemma save_escalation_fields_row:
  assumes "distinct (map case_id tbl)" and "c \<in> set tbl"
  shows "save_escalation_fields
           (c\<lparr>current_level := l, escalation_count := n, last_escalated_at := t,
              sla_deadline := d\<rparr>) tbl
         = map (\<lambda>r. if r = c then c\<lparr>current_level := l, escalation_count := n,
                                      last_escalated_at := t, sla_deadline := d\<rparr> else r) tbl"
  unfolding save_escalation_fields_def
proof (rule map_cong [OF refl])
  fix r assume "r \<in> set tbl"
  then show "(if case_id r = case_id (c\<lparr>current_level := l, escalation_count := n,
                  last_escalated_at := t, sla_deadline := d\<rparr>)
              then r\<lparr>current_level := current_level (c\<lparr>current_level := l,
                         escalation_count := n, last_escalated_at := t, sla_deadline := d\<rparr>),
                     escalation_count := escalation_count (c\<lparr>current_level := l,
                         escalation_count := n, last_escalated_at := t, sla_deadline := d\<rparr>),
                     last_escalated_at := last_escalated_at (c\<lparr>current_level := l,
                         escalation_count := n, last_escalated_at := t, sla_deadline := d\<rparr>),
                     sla_deadline := sla_deadline (c\<lparr>current_level := l,
                         escalation_count := n, last_escalated_at := t, sla_deadline := d\<rparr>)\<rparr>
              else r)
           = (if r = c then c\<lparr>current_level := l, escalation_count := n,
                                last_escalated_at := t, sla_deadline := d\<rparr> else r)"
    using same_id_same_row [OF assms(1,2)] by auto
qed

lemma bulk_Nil: "bulk upd hr [] db = db"
  by (simp add: bulk_def)

section \<open>Terminal stability\<close>

lemma filter_unique_row:
  "distinct (map f xs) \<Longrightarrow> x \<in> set xs \<Longrightarrow> P x \<Longrightarrow> filter (\<lambda>r. f r = f x \<and> P r) xs = [x]"
proof (induction xs)
  case Nil
  then show ?case by simp
next
  case (Cons a xs)
  from Cons.prems(1) have d: "distinct (map f xs)" and na: "f a \<notin> f ` set xs" by simp_all
  show ?case
  proof (cases "a = x")
    case True
    have "f r \<noteq> f x" if "r \<in> set xs" for r
    proof
      assume "f r = f x"
      then have "f a = f r" using True by simp
      then have "f a \<in> f ` set xs" using that by (simp add: image_iff) metis
      with na show False by simp
    qed
    then have "filter (\<lambda>r. f r = f x \<and> P r) xs = []"
      by (simp add: filter_empty_conv)
    then show ?thesis using True Cons.prems(3) by simp
  next
    case False
    then have x: "x \<in> set xs" using Cons.prems(2) by simp
    then have "f x \<in> f ` set xs" by (rule imageI)
    with na have "f a \<noteq> f x" by metis
    moreover have "filter (\<lambda>r. f r = f x \<and> P r) xs = [x]"
      using Cons.IH [OF d x Cons.prems(3)] .
    ultimately show ?thesis by simp
  qed
qed

lemma admin_queryset_single:
  assumes "pk_unique db" and "Case_objects_get (cases db) cid = Some c"
  shows "admin_queryset (cases db) [cid] = [c]"
proof -
  from Case_objects_get_SomeD [OF assms(2)]
  have c: "c \<in> set (cases db)" "\<not> case_is_deleted c" "case_id c = cid" by simp_all
  have "admin_queryset (cases db) [cid]
      = filter (\<lambda>r. case_id r = case_id c \<and> \<not> case_is_deleted r) (cases db)"
    unfolding admin_queryset_def Case_objects_def filter_filter c(3)
    by (rule filter_cong [OF refl]) auto
  also have "\<dots> = [c]"
    using assms(1) c(1,2) by (intro filter_unique_row) (simp_all add: pk_unique_def)
  finally show ?thesis .
qed

lemma authority_view_denied:
  "\<not> IsLevel1OrLevel2_has_permission ru \<Longrightarrow> snd (authority_view post db ru) = db"
  by (simp add: authority_view_def)

lemma authority_view_permitted:
  "IsLevel1OrLevel2_has_permission ru \<Longrightarrow> \<exists>u. ru = Some u \<and> authority_view post db ru = post u"
  by (cases ru) (auto simp: authority_view_def IsLevel1OrLevel2_has_permission_def split: if_splits)

lemma not_open_post:
  assumes "Case_objects_get (cases db) cid = Some c" and "case_status c \<noteq> OPEN"
  shows "SolveCaseView_post now db u cid data = (Response [(''detail'', ''Case is not open.'')] 400, db)"
    and "ForwardCaseView_post now db u cid data = (Response [(''detail'', ''Case is not open.'')] 400, db)"
    and "RejectCaseView_post now db u cid data = (Response [(''detail'', ''Case is not open.'')] 400, db)"
  using assms
  by (simp_all add: SolveCaseView_post_def ForwardCaseView_post_def RejectCaseView_post_def)

lemma not_open_view:
  assumes "Case_objects_get (cases db) cid = Some c" and "case_status c \<noteq> OPEN"
  shows "snd (SolveCaseView now db ru cid data) = db"
    and "snd (ForwardCaseView now db ru cid data) = db"
    and "snd (RejectCaseView now db ru cid data) = db"
    and "IsLevel1OrLevel2_has_permission ru \<Longrightarrow>
         fst (SolveCaseView now db ru cid data) = Response [(''detail'', ''Case is not open.'')] 400"
    and "IsLevel1OrLevel2_has_permission ru \<Longrightarrow>
         fst (ForwardCaseView now db ru cid data) = Response [(''detail'', ''Case is not open.'')] 400"
    and "IsLevel1OrLevel2_has_permission ru \<Longrightarrow>
         fst (RejectCaseView now db ru cid data) = Response [(''detail'', ''Case is not open.'')] 400"
proof -
  note p = not_open_post [OF assms]
  show "snd (SolveCaseView now db ru cid data) = db"
    by (cases ru) (simp_all add: SolveCaseView_def authority_view_def p)
  show "snd (ForwardCaseView now db ru cid data) = db"
    by (cases ru) (simp_all add: ForwardCaseView_def authority_view_def p)
  show "snd (RejectCaseView now db ru cid data) = db"
    by (cases ru) (simp_all add: RejectCaseView_def authority_view_def p)
  show "IsLevel1OrLevel2_has_permission ru \<Longrightarrow>
         fst (SolveCaseView now db ru cid data) = Response [(''detail'', ''Case is not open.'')] 400"
    using authority_view_permitted [of ru "\<lambda>u. SolveCaseView_post now db u cid data" db]
    by (auto simp: SolveCaseView_def p)
  show "IsLevel1OrLevel2_has_permission ru \<Longrightarrow>
         fst (ForwardCaseView now db ru cid data) = Response [(''detail'', ''Case is not open.'')] 400"
    using authority_view_permitted [of ru "\<lambda>u. ForwardCaseView_post now db u cid data" db]
    by (auto simp: ForwardCaseView_def p)
  show "IsLevel1OrLevel2_has_permission ru \<Longrightarrow>
         fst (RejectCaseView now db ru cid data) = Response [(''detail'', ''Case is not open.'')] 400"
    using authority_view_permitted [of ru "\<lambda>u. RejectCaseView_post now db u cid data" db]
    by (auto simp: RejectCaseView_def p)
qed

lemma force_close_terminal:
  assumes "pk_unique db" and "Case_objects_get (cases db) cid = Some c"
    and "case_status c \<in> {SOLVED, REJECTED, CLOSED}"
  shows "force_close_case db admin [cid] = (db, 0, 1)"
  using assms(3)
  by (auto simp: force_close_case_def admin_queryset_single [OF assms(1,2)] force_close_step_def)

text \<open>
  Claim C5. For a case whose status is SOLVED, REJECTED or CLOSED, solving,
  rejecting and forwarding leave both tables as they were, whoever calls; a caller
  who passes the permission check is answered with the 400 response
  \<^verbatim>\<open>Case is not open.\<close> (the view returns it, it does not raise). The admin's
  force-close of that case changes nothing either and reports the case as skipped.
\<close>

theorem terminal_stability:
  "Case_objects_get (cases db) cid = Some c \<and> case_status c \<in> {SOLVED, REJECTED, CLOSED} \<longrightarrow>
     snd (SolveCaseView now db ru cid data) = db
     \<and> snd (RejectCaseView now db ru cid data) = db
     \<and> snd (ForwardCaseView now db ru cid data) = db
     \<and> (IsLevel1OrLevel2_has_permission ru \<longrightarrow>
          fst (SolveCaseView now db ru cid data) = Response [(''detail'', ''Case is not open.'')] 400
          \<and> fst (RejectCaseView now db ru cid data) = Response [(''detail'', ''Case is not open.'')] 400
          \<and> fst (ForwardCaseView now db ru cid data)
              = Response [(''detail'', ''Case is not open.'')] 400)
     \<and> (pk_unique db \<longrightarrow> force_close_case db admin [cid] = (db, 0, 1))"
proof (intro impI)
  assume a: "Case_objects_get (cases db) cid = Some c \<and> case_status c \<in> {SOLVED, REJECTED, CLOSED}"
  then have g: "Case_objects_get (cases db) cid = Some c" and n: "case_status c \<noteq> OPEN"
    by auto
  show "snd (SolveCaseView now db ru cid data) = db
     \<and> snd (RejectCaseView now db ru cid data) = db
     \<and> snd (ForwardCaseView now db ru cid data) = db
     \<and> (IsLevel1OrLevel2_has_permission ru \<longrightarrow>
          fst (SolveCaseView now db ru cid data) = Response [(''detail'', ''Case is not open.'')] 400
          \<and> fst (RejectCaseView now db ru cid data) = Response [(''detail'', ''Case is not open.'')] 400
          \<and> fst (ForwardCaseView now db ru cid data)
              = Response [(''detail'', ''Case is not open.'')] 400)
     \<and> (pk_unique db \<longrightarrow> force_close_case db admin [cid] = (db, 0, 1))"
    using not_open_view [OF g n] force_close_terminal [OF _ g] a by simp
qed

lemma example_db_pk: "pk_unique example_db"
  by (simp add: pk_unique_def example_db_def example_case_def)

lemma example_db_get_3:
  "Case_objects_get (cases example_db) 3
     = Some ((example_case 3 1 SOLVED 100)\<lparr>solved_at := Some 40, solved_by := Some 8\<rparr>)"
  by (simp add: Case_objects_get_def Case_objects_def example_db_def example_case_def)

lemma example_officer_permitted:
  "IsLevel1OrLevel2_has_permission (Some (example_user 7 LEVEL_2))"
  by (simp add: IsLevel1OrLevel2_has_permission_def example_user_def is_revoked_def
      is_authority_def AUTHORITY_ROLES_def)

theorem terminal_stability_witness:
  "Case_objects_get (cases example_db) 3
     = Some ((example_case 3 1 SOLVED 100)\<lparr>solved_at := Some 40, solved_by := Some 8\<rparr>)
   \<and> case_status ((example_case 3 1 SOLVED 100)\<lparr>solved_at := Some 40, solved_by := Some 8\<rparr>)
       \<in> {SOLVED, REJECTED, CLOSED}
   \<and> IsLevel1OrLevel2_has_permission (Some (example_user 7 LEVEL_2))
   \<and> pk_unique example_db
   \<and> SolveCaseView 60 example_db (Some (example_user 7 LEVEL_2)) 3 Map.empty
       = (Response [(''detail'', ''Case is not open.'')] 400, example_db)
   \<and> RejectCaseView 60 example_db (Some (example_user 7 LEVEL_2)) 3 example_reason
       = (Response [(''detail'', ''Case is not open.'')] 400, example_db)
   \<and> ForwardCaseView 60 example_db (Some (example_user 7 LEVEL_2)) 3 Map.empty
       = (Response [(''detail'', ''Case is not open.'')] 400, example_db)
   \<and> force_close_case example_db (example_user 1 LEVEL_1) [3] = (example_db, 0, 1)"
proof -
  have s: "case_status ((example_case 3 1 SOLVED 100)\<lparr>solved_at := Some 40, solved_by := Some 8\<rparr>)
       \<in> {SOLVED, REJECTED, CLOSED}"
    by (simp add: example_case_def)
  note t = terminal_stability [of example_db 3
      "(example_case 3 1 SOLVED 100)\<lparr>solved_at := Some 40, solved_by := Some 8\<rparr>"
      60 "Some (example_user 7 LEVEL_2)" _ "example_user 1 LEVEL_1"]
  have 1: "SolveCaseView 60 example_db (Some (example_user 7 LEVEL_2)) 3 Map.empty
       = (Response [(''detail'', ''Case is not open.'')] 400, example_db)"
    using t [of Map.empty] example_db_get_3 s example_officer_permitted
    by (metis prod.collapse)
  have 2: "RejectCaseView 60 example_db (Some (example_user 7 LEVEL_2)) 3 example_reason
       = (Response [(''detail'', ''Case is not open.'')] 400, example_db)"
    using t [of example_reason] example_db_get_3 s example_officer_permitted
    by (metis prod.collapse)
  have 3: "ForwardCaseView 60 example_db (Some (example_user 7 LEVEL_2)) 3 Map.empty
       = (Response [(''detail'', ''Case is not open.'')] 400, example_db)"
    using t [of Map.empty] example_db_get_3 s example_officer_permitted
    by (metis prod.collapse)
  have 4: "force_close_case example_db (example_user 1 LEVEL_1) [3] = (example_db, 0, 1)"
    using t [of Map.empty] example_db_get_3 s example_db_pk by blast
  show ?thesis
    using example_db_get_3 s example_officer_permitted example_db_pk 1 2 3 4 by blast
qed

section \<open>The transition endpoints are not level-gated\<close>

lemma Case_objects_get_save:
  assumes "Case_objects_get tbl cid = Some c" and "case_id c1 = cid" and "\<not> case_is_deleted c1"
  shows "Case_objects_get (save_case c1 tbl) cid = Some c1"
proof -
  have "find (\<lambda>x. case_id x = cid) (filter (\<lambda>c. \<not> case_is_deleted c) tbl) = Some c \<Longrightarrow>
        find (\<lambda>x. case_id x = cid)
          (filter (\<lambda>c. \<not> case_is_deleted c) (map (\<lambda>r. if case_id r = cid then c1 else r) tbl))
        = Some c1"
    using assms(2,3) by (induction tbl) (auto split: if_splits)
  then show ?thesis
    using assms by (simp add: Case_objects_get_def Case_objects_def save_case_def)
qed

lemma authority_permitted:
  "role u \<in> {LEVEL_0, LEVEL_1, LEVEL_2, LEVEL_2_CAPTAIN} \<Longrightarrow> is_active u \<Longrightarrow> status u \<noteq> REVOKED \<Longrightarrow>
   IsLevel1OrLevel2_has_permission (Some u)"
  by (auto simp: IsLevel1OrLevel2_has_permission_def is_revoked_def is_authority_def
      AUTHORITY_ROLES_def)

lemma solve_open:
  assumes "IsLevel1OrLevel2_has_permission (Some u)"
    and "Case_objects_get (cases db) cid = Some c" and "case_status c = OPEN"
  shows "fst (SolveCaseView now db (Some u) cid data)
           = Response [(''detail'', ''Case marked as solved.'')] 200"
    and "map_option case_status
           (Case_objects_get (cases (snd (SolveCaseView now db (Some u) cid data))) cid)
           = Some SOLVED"
proof -
  from Case_objects_get_SomeD [OF assms(2)]
  have c: "\<not> case_is_deleted c" "case_id c = cid" by simp_all
  show "fst (SolveCaseView now db (Some u) cid data)
           = Response [(''detail'', ''Case marked as solved.'')] 200"
    using assms by (simp add: SolveCaseView_def authority_view_def SolveCaseView_post_def Let_def)
  show "map_option case_status
           (Case_objects_get (cases (snd (SolveCaseView now db (Some u) cid data))) cid)
           = Some SOLVED"
    using assms c
    by (simp add: SolveCaseView_def authority_view_def SolveCaseView_post_def Let_def
        Case_objects_get_save)
qed

lemma reject_open:
  assumes "IsLevel1OrLevel2_has_permission (Some u)"
    and "Case_objects_get (cases db) cid = Some c" and "case_status c = OPEN"
    and "dict_get data ''reason'' [] \<noteq> []"
  shows "fst (RejectCaseView now db (Some u) cid data) = Response [(''detail'', ''Case rejected.'')] 200"
    and "map_option case_status
           (Case_objects_get (cases (snd (RejectCaseView now db (Some u) cid data))) cid)
           = Some REJECTED"
proof -
  from Case_objects_get_SomeD [OF assms(2)]
  have c: "\<not> case_is_deleted c" "case_id c = cid" by simp_all
  show "fst (RejectCaseView now db (Some u) cid data) = Response [(''detail'', ''Case rejected.'')] 200"
    using assms by (simp add: RejectCaseView_def authority_view_def RejectCaseView_post_def Let_def)
  show "map_option case_status
           (Case_objects_get (cases (snd (RejectCaseView now db (Some u) cid data))) cid)
           = Some REJECTED"
    using assms c
    by (simp add: RejectCaseView_def authority_view_def RejectCaseView_post_def Let_def
        Case_objects_get_save)
qed

lemma forward_open:
  assumes "IsLevel1OrLevel2_has_permission (Some u)"
    and "Case_objects_get (cases db) cid = Some c" and "case_status c = OPEN"
    and "0 < current_level c"
  shows "fst (ForwardCaseView now db (Some u) cid data)
           = Response [(''detail'', ''Case forwarded to Level '' @ str_int (current_level c - 1)
                          @ ''.'')] 200"
    and "map_option current_level
           (Case_objects_get (cases (snd (ForwardCaseView now db (Some u) cid data))) cid)
           = Some (current_level c - 1)"
proof -
  from Case_objects_get_SomeD [OF assms(2)]
  have c: "\<not> case_is_deleted c" "case_id c = cid" by simp_all
  show "fst (ForwardCaseView now db (Some u) cid data)
           = Response [(''detail'', ''Case forwarded to Level '' @ str_int (current_level c - 1)
                          @ ''.'')] 200"
    using assms
    by (simp add: ForwardCaseView_def authority_view_def ForwardCaseView_post_def Let_def
        CaseLevel_LEVEL_0_def)
  show "map_option current_level
           (Case_objects_get (cases (snd (ForwardCaseView now db (Some u) cid data))) cid)
           = Some (current_level c - 1)"
    using assms c
    by (simp add: ForwardCaseView_def authority_view_def ForwardCaseView_post_def Let_def
        CaseLevel_LEVEL_0_def Case_objects_get_save)
qed

text \<open>
  Claim C10. The transition endpoints do not look at the caller's level. For an OPEN
  case at any level and an active, not revoked caller of any of the four authority
  roles, solving succeeds; rejecting succeeds when the request gives a reason;
  forwarding succeeds when the case is above level 0 and lowers the level by one.
  The guards are the permission class and the case's own state, with the reason that
  a rejection must carry.
\<close>

theorem transitions_not_level_gated:
  "role u \<in> {LEVEL_0, LEVEL_1, LEVEL_2, LEVEL_2_CAPTAIN} \<and> is_active u \<and> status u \<noteq> REVOKED
   \<and> Case_objects_get (cases db) cid = Some c \<and> case_status c = OPEN \<longrightarrow>
     fst (SolveCaseView now db (Some u) cid data)
       = Response [(''detail'', ''Case marked as solved.'')] 200
     \<and> map_option case_status
         (Case_objects_get (cases (snd (SolveCaseView now db (Some u) cid data))) cid) = Some SOLVED
     \<and> (dict_get data ''reason'' [] \<noteq> [] \<longrightarrow>
          fst (RejectCaseView now db (Some u) cid data) = Response [(''detail'', ''Case rejected.'')] 200
          \<and> map_option case_status
              (Case_objects_get (cases (snd (RejectCaseView now db (Some u) cid data))) cid)
             = Some REJECTED)
     \<and> (0 < current_level c \<longrightarrow>
          fst (ForwardCaseView now db (Some u) cid data)
            = Response [(''detail'', ''Case forwarded to Level '' @ str_int (current_level c - 1)
                           @ ''.'')] 200
          \<and> map_option current_level
              (Case_objects_get (cases (snd (ForwardCaseView now db (Some u) cid data))) cid)
             = Some (current_level c - 1))"
proof (intro impI)
  assume a: "role u \<in> {LEVEL_0, LEVEL_1, LEVEL_2, LEVEL_2_CAPTAIN} \<and> is_active u \<and> status u \<noteq> REVOKED
   \<and> Case_objects_get (cases db) cid = Some c \<and> case_status c = OPEN"
  then have p: "IsLevel1OrLevel2_has_permission (Some u)"
    by (simp add: authority_permitted)
  from a have g: "Case_objects_get (cases db) cid = Some c" and s: "case_status c = OPEN"
    by simp_all
  show "fst (SolveCaseView now db (Some u) cid data)
       = Response [(''detail'', ''Case marked as solved.'')] 200
     \<and> map_option case_status
         (Case_objects_get (cases (snd (SolveCaseView now db (Some u) cid data))) cid) = Some SOLVED
     \<and> (dict_get data ''reason'' [] \<noteq> [] \<longrightarrow>
          fst (RejectCaseView now db (Some u) cid data) = Response [(''detail'', ''Case rejected.'')] 200
          \<and> map_option case_status
              (Case_objects_get (cases (snd (RejectCaseView now db (Some u) cid data))) cid)
             = Some REJECTED)
     \<and> (0 < current_level c \<longrightarrow>
          fst (ForwardCaseView now db (Some u) cid data)
            = Response [(''detail'', ''Case forwarded to Level '' @ str_int (current_level c - 1)
                           @ ''.'')] 200
          \<and> map_option current_level
              (Case_objects_get (cases (snd (ForwardCaseView now db (Some u) cid data))) cid)
             = Some (current_level c - 1))"
    using solve_open [OF p g s] reject_open [OF p g s] forward_open [OF p g s] by simp
qed

lemma str_int_1: "str_int 1 = ''1''"
  by code_simp

theorem transitions_not_level_gated_witness:
  "role (example_user 7 LEVEL_2) \<in> {LEVEL_0, LEVEL_1, LEVEL_2, LEVEL_2_CAPTAIN}
   \<and> Case_objects_get (cases example_db) 2 = Some (example_case 2 0 OPEN 100)
   \<and> fst (SolveCaseView 60 example_db (Some (example_user 7 LEVEL_2)) 2 Map.empty)
       = Response [(''detail'', ''Case marked as solved.'')] 200
   \<and> fst (RejectCaseView 60 example_db (Some (example_user 7 LEVEL_2)) 2 example_reason)
       = Response [(''detail'', ''Case rejected.'')] 200
   \<and> role (example_user 3 LEVEL_0) \<in> {LEVEL_0, LEVEL_1, LEVEL_2, LEVEL_2_CAPTAIN}
   \<and> Case_objects_get (cases example_db) 1 = Some (example_case 1 2 OPEN 100)
   \<and> fst (ForwardCaseView 60 example_db (Some (example_user 3 LEVEL_0)) 1 Map.empty)
       = Response [(''detail'', ''Case forwarded to Level 1.'')] 200
   \<and> map_option current_level (Case_objects_get
         (cases (snd (ForwardCaseView 60 example_db (Some (example_user 3 LEVEL_0)) 1 Map.empty))) 1)
       = Some 1"
proof -
  have u7: "role (example_user 7 LEVEL_2) \<in> {LEVEL_0, LEVEL_1, LEVEL_2, LEVEL_2_CAPTAIN}
      \<and> is_active (example_user 7 LEVEL_2) \<and> status (example_user 7 LEVEL_2) \<noteq> REVOKED"
    by (simp add: example_user_def)
  have u3: "role (example_user 3 LEVEL_0) \<in> {LEVEL_0, LEVEL_1, LEVEL_2, LEVEL_2_CAPTAIN}
      \<and> is_active (example_user 3 LEVEL_0) \<and> status (example_user 3 LEVEL_0) \<noteq> REVOKED"
    by (simp add: example_user_def)
  have g2: "Case_objects_get (cases example_db) 2 = Some (example_case 2 0 OPEN 100)"
    by (simp add: Case_objects_get_def Case_objects_def example_db_def example_case_def)
  have g1: "Case_objects_get (cases example_db) 1 = Some (example_case 1 2 OPEN 100)"
    by (simp add: Case_objects_get_def Case_objects_def example_db_def example_case_def)
  have c2: "case_status (example_case 2 0 OPEN 100) = OPEN"
    and c1: "case_status (example_case 1 2 OPEN 100) = OPEN"
    and l1: "current_level (example_case 1 2 OPEN 100) = 2"
    by (simp_all add: example_case_def)
  have r: "dict_get example_reason ''reason'' [] \<noteq> []"
    by (simp add: example_reason_def dict_get_def)
  note A = transitions_not_level_gated [of "example_user 7 LEVEL_2" example_db 2
      "example_case 2 0 OPEN 100" 60 Map.empty]
  note B = transitions_not_level_gated [of "example_user 7 LEVEL_2" example_db 2
      "example_case 2 0 OPEN 100" 60 example_reason]
  note C = transitions_not_level_gated [of "example_user 3 LEVEL_0" example_db 1
      "example_case 1 2 OPEN 100" 60 Map.empty]
  from A u7 g2 c2 have 1: "fst (SolveCaseView 60 example_db (Some (example_user 7 LEVEL_2)) 2 Map.empty)
       = Response [(''detail'', ''Case marked as solved.'')] 200"
    by blast
  from B u7 g2 c2 r have 2: "fst (RejectCaseView 60 example_db (Some (example_user 7 LEVEL_2)) 2
       example_reason) = Response [(''detail'', ''Case rejected.'')] 200"
    by blast
  from C u3 g1 c1 l1 have 3: "fst (ForwardCaseView 60 example_db (Some (example_user 3 LEVEL_0)) 1 Map.empty)
       = Response [(''detail'', ''Case forwarded to Level '' @ str_int (2 - 1) @ ''.'')] 200
     \<and> map_option current_level (Case_objects_get
         (cases (snd (ForwardCaseView 60 example_db (Some (example_user 3 LEVEL_0)) 1 Map.empty))) 1)
       = Some (2 - 1)"
    by simp
  show ?thesis using u7 g2 1 2 u3 g1 3 by (simp add: str_int_1)
qed

section \<open>Loops over rows\<close>

lemma bulk_skip:
  "upd c = c \<Longrightarrow> hr c = [] \<Longrightarrow> bulk upd hr [c] db = db"
proof -
  assume u: "upd c = c" and h: "hr c = []"
  have "map (\<lambda>r. if r \<in> set [c] then upd r else r) (cases db) = cases db"
    by (rule map_idI) (simp add: u)
  then show ?thesis by (simp add: bulk_def h)
qed

lemma bulk_save:
  assumes "distinct (map case_id (cases db))" and "c \<in> set (cases db)"
    and "case_id c1 = case_id c" and "upd c = c1" and "hr c = hs"
  shows "\<lparr>cases = save_case c1 (cases db), history = history db @ hs\<rparr> = bulk upd hr [c] db"
proof -
  have "map (\<lambda>r. if r = c then c1 else r) (cases db)
      = map (\<lambda>r. if r \<in> set [c] then upd r else r) (cases db)"
    by (rule map_cong [OF refl]) (simp add: assms(4))
  then show ?thesis
    using save_case_row [OF assms(1,2,3)] assms(5) by (simp add: bulk_def)
qed

lemma foldl_rows_counts:
  fixes step :: "case_db \<times> 'k \<Rightarrow> case_row \<Rightarrow> case_db \<times> 'k"
  assumes step: "\<And>db k c. distinct (map case_id (cases db)) \<Longrightarrow> c \<in> set (cases db) \<Longrightarrow> P c \<Longrightarrow>
            step (db, k) c = (bulk upd hr [c] db, cnt k c)"
    and ids: "\<And>c. case_id (upd c) = case_id c"
  shows "distinct (map case_id (cases db)) \<Longrightarrow> set qs \<subseteq> set (cases db) \<Longrightarrow>
         distinct (map case_id qs) \<Longrightarrow> \<forall>c \<in> set qs. P c \<Longrightarrow>
         foldl step (db, k) qs = (bulk upd hr qs db, foldl cnt k qs)"
proof (induction qs arbitrary: db k)
  case Nil
  show ?case by (simp add: bulk_Nil)
next
  case (Cons c qs)
  let ?db1 = "bulk upd hr [c] db"
  have c: "c \<in> set (cases db)" and Pc: "P c" using Cons.prems by simp_all
  have s: "step (db, k) c = (?db1, cnt k c)"
    by (rule step [OF Cons.prems(1) c Pc])
  have ids1: "map case_id (cases ?db1) = map case_id (cases db)"
    by (simp add: bulk_def ids)
  have d1: "distinct (map case_id (cases ?db1))"
    using Cons.prems(1) by (simp add: ids1)
  have notc: "case_id r \<noteq> case_id c" if "r \<in> set qs" for r
  proof -
    from that have "case_id r \<in> case_id ` set qs" by (rule imageI)
    moreover have "case_id c \<notin> case_id ` set qs" using Cons.prems(3) by simp
    ultimately show ?thesis by metis
  qed
  have sub: "set qs \<subseteq> set (cases ?db1)"
  proof
    fix r assume r: "r \<in> set qs"
    then have "r \<in> set (cases db)" and "r \<noteq> c" using Cons.prems(2) notc by auto
    then show "r \<in> set (cases ?db1)" by (auto simp: bulk_def image_iff)
  qed
  have "foldl step (db, k) (c # qs) = foldl step (?db1, cnt k c) qs"
    using s by simp
  also have "\<dots> = (bulk upd hr qs ?db1, foldl cnt (cnt k c) qs)"
    using Cons.IH [OF d1 sub] Cons.prems(3,4) by simp
  also have "bulk upd hr qs ?db1 = bulk upd hr (c # qs) db"
  proof -
    have "map (\<lambda>r. if r \<in> set qs then upd r else r) (map (\<lambda>r. if r \<in> set [c] then upd r else r) (cases db))
        = map (\<lambda>r. if r \<in> set (c # qs) then upd r else r) (cases db)"
      unfolding map_map
    proof (rule map_cong [OF refl])
      fix r assume "r \<in> set (cases db)"
      have "upd c \<notin> set qs" using notc [of "upd c"] ids by auto
      then show "((\<lambda>r. if r \<in> set qs then upd r else r) \<circ> (\<lambda>r. if r \<in> set [c] then upd r else r)) r
          = (if r \<in> set (c # qs) then upd r else r)"
        by auto
    qed
    then show ?thesis by (simp add: bulk_def)
  qed
  finally show ?case by simp
qed

section \<open>The admin actions and the sweep in closed form\<close>

lemma admin_queryset_rows:
  "set (admin_queryset tbl selected) \<subseteq> set tbl"
  "distinct (map case_id tbl) \<Longrightarrow> distinct (map case_id (admin_queryset tbl selected))"
  "c \<in> set (admin_queryset tbl selected) \<Longrightarrow> \<not> case_is_deleted c"
  by (auto simp: admin_queryset_def Case_objects_def distinct_map_filter)

lemma expired_cases_rows:
  "set (expired_cases now tbl) \<subseteq> set tbl"
  "distinct (map case_id tbl) \<Longrightarrow> distinct (map case_id (expired_cases now tbl))"
  "c \<in> set (expired_cases now tbl) \<Longrightarrow> \<not> case_is_deleted c"
  by (auto simp: expired_cases_def Case_objects_def distinct_map_filter rev_map [symmetric])

lemma force_close_step_bulk:
  assumes "distinct (map case_id (cases db))" and "c \<in> set (cases db)"
  shows "force_close_step u (db, k) c
     = (bulk force_close_row (force_close_history u) [c] db,
        (if case_status c \<in> set [SOLVED, REJECTED, CLOSED] then (fst k, snd k + 1)
         else (fst k + 1, snd k)))"
proof (cases "case_status c \<in> set [SOLVED, REJECTED, CLOSED]")
  case True
  then have "bulk force_close_row (force_close_history u) [c] db = db"
    by (intro bulk_skip) (simp_all add: force_close_row_def force_close_history_def)
  then show ?thesis using True by (simp add: force_close_step_def split: prod.splits)
next
  case False
  have "\<lparr>cases = save_case (c\<lparr>case_status := CLOSED\<rparr>) (cases db),
         history = history db @ force_close_history u c\<rparr>
       = bulk force_close_row (force_close_history u) [c] db"
    using False by (intro bulk_save [OF assms]) (simp_all add: force_close_row_def)
  then show ?thesis
    using False
    by (simp add: force_close_step_def force_close_history_def Let_def split: prod.splits)
qed

lemma force_close_case_bulk:
  assumes "pk_unique db"
  shows "fst (force_close_case db u selected)
     = bulk force_close_row (force_close_history u) (admin_queryset (cases db) selected) db"
proof -
  have "foldl (force_close_step u) (db, (0, 0)) (admin_queryset (cases db) selected)
      = (bulk force_close_row (force_close_history u) (admin_queryset (cases db) selected) db,
         foldl (\<lambda>k c. if case_status c \<in> set [SOLVED, REJECTED, CLOSED] then (fst k, snd k + 1)
                        else (fst k + 1, snd k)) (0, 0) (admin_queryset (cases db) selected))"
    using assms
    by (intro foldl_rows_counts [where P = "\<lambda>c. True"])
      (simp_all add: force_close_step_bulk force_close_row_def pk_unique_def
        admin_queryset_rows)
  then show ?thesis by (simp add: force_close_case_def)
qed

lemma force_escalate_step_bulk:
  assumes "distinct (map case_id (cases db))" and "c \<in> set (cases db)"
  shows "force_escalate_step now u (db, k) c
     = (bulk (force_escalate_row now) (force_escalate_history u) [c] db,
        (if case_status c \<noteq> OPEN \<or> current_level c = 0 then (fst k, snd k + 1)
         else (fst k + 1, snd k)))"
proof (cases "case_status c \<noteq> OPEN \<or> current_level c = 0")
  case True
  then have "bulk (force_escalate_row now) (force_escalate_history u) [c] db = db"
    by (intro bulk_skip) (simp_all add: force_escalate_row_def force_escalate_history_def)
  then show ?thesis
    using True by (auto simp: force_escalate_step_def CaseLevel_LEVEL_0_def split: prod.splits)
next
  case False
  have "\<lparr>cases = save_case (c\<lparr>current_level := current_level c - 1,
             escalation_count := escalation_count c + 1,
             last_escalated_at := Some now,
             sla_deadline := now + timedelta_hours 24\<rparr>) (cases db),
         history = history db @ force_escalate_history u c\<rparr>
       = bulk (force_escalate_row now) (force_escalate_history u) [c] db"
    using False by (intro bulk_save [OF assms]) (simp_all add: force_escalate_row_def)
  then show ?thesis
    using False
    by (simp add: force_escalate_step_def force_escalate_history_def Let_def
        CaseLevel_LEVEL_0_def split: prod.splits)
qed

lemma force_escalate_case_bulk:
  assumes "pk_unique db"
  shows "fst (force_escalate_case now db u selected)
     = bulk (force_escalate_row now) (force_escalate_history u)
         (admin_queryset (cases db) selected) db"
proof -
  have "foldl (force_escalate_step now u) (db, (0, 0)) (admin_queryset (cases db) selected)
      = (bulk (force_escalate_row now) (force_escalate_history u)
           (admin_queryset (cases db) selected) db,
         foldl (\<lambda>k c. if case_status c \<noteq> OPEN \<or> current_level c = 0 then (fst k, snd k + 1)
                        else (fst k + 1, snd k)) (0, 0) (admin_queryset (cases db) selected))"
    using assms
    by (intro foldl_rows_counts [where P = "\<lambda>c. True"])
      (simp_all add: force_escalate_step_bulk force_escalate_row_def pk_unique_def
        admin_queryset_rows)
  then show ?thesis by (simp add: force_escalate_case_def)
qed

lemma escalate_case_row:
  assumes "distinct (map case_id (cases db))" and "c \<in> set (cases db)" and "\<not> case_is_deleted c"
  shows "escalate_case m now False db c
     = ((if auto_escalate_cond m now c then Inr True
         else if passes_checks m now c then Inl AttributeError else Inr False),
        bulk (auto_escalate_row m now) (auto_escalate_history m now) [c] db)"
proof (cases "auto_escalate_cond m now c")
  case False
  then have b: "bulk (auto_escalate_row m now) (auto_escalate_history m now) [c] db = db"
    by (intro bulk_skip) (simp_all add: auto_escalate_row_def auto_escalate_history_def)
  have g: "Case_objects_get (cases db) (case_id c) = Some c"
    by (rule Case_objects_get_row [OF assms])
  show ?thesis
    using False g
    by (auto simp: escalate_case_def b auto_escalate_cond_def passes_checks_def Let_def
        CaseLevel_LEVEL_2_def CaseLevel_LEVEL_1_def CaseLevel_LEVEL_0_def)
next
  case True
  have g: "Case_objects_get (cases db) (case_id c) = Some c"
    by (rule Case_objects_get_row [OF assms])
  let ?new = "if current_level c = 2 then 1 else (0::int)"
  from True have lv: "?new = current_level c - 1"
    by (auto simp: auto_escalate_cond_def passes_checks_def)
  let ?c1 = "c\<lparr>current_level := current_level c - 1,
             escalation_count := escalation_count c + 1,
             last_escalated_at := Some now,
             sla_deadline := calculate_sla_deadline_for_level m (current_level c - 1) now\<rparr>"
  have sv: "save_escalation_fields ?c1 (cases db) = save_case ?c1 (cases db)"
    using save_escalation_fields_row [OF assms(1,2)] save_case_row [OF assms(1,2), of ?c1]
    by simp
  have eq1: "\<lparr>cases = save_case ?c1 (cases db),
         history = history db @ auto_escalate_history m now c\<rparr>
       = bulk (auto_escalate_row m now) (auto_escalate_history m now) [c] db"
    using True by (intro bulk_save [OF assms(1,2)]) (simp_all add: auto_escalate_row_def)
  have eq2: "escalate_case m now False db c
      = (Inr True, \<lparr>cases = save_escalation_fields ?c1 (cases db),
         history = history db @ auto_escalate_history m now c\<rparr>)"
    using True g lv
    by (auto simp: escalate_case_def auto_escalate_cond_def passes_checks_def
        auto_escalate_history_def Let_def
        CaseLevel_LEVEL_2_def CaseLevel_LEVEL_1_def CaseLevel_LEVEL_0_def)
  show ?thesis
    unfolding eq2 sv eq1 using True by simp
qed

lemma handle_step_row:
  assumes "distinct (map case_id (cases db))" and "c \<in> set (cases db)" and "\<not> case_is_deleted c"
  shows "handle_step m now False (db, k) c
     = (bulk (auto_escalate_row m now) (auto_escalate_history m now) [c] db,
        sweep_count m now k c)"
  by (cases k) (simp add: handle_step_def escalate_case_row [OF assms] sweep_count_def
      split: prod.splits)

lemma handle_bulk:
  assumes "pk_unique db"
  shows "foldl (handle_step m now False) (db, (0, 0, 0)) (expired_cases now (cases db))
     = (bulk (auto_escalate_row m now) (auto_escalate_history m now)
          (expired_cases now (cases db)) db,
        foldl (sweep_count m now) (0, 0, 0) (expired_cases now (cases db)))"
  using assms
  by (intro foldl_rows_counts [where P = "\<lambda>c. \<not> case_is_deleted c"])
    (simp_all add: handle_step_row auto_escalate_row_def pk_unique_def expired_cases_rows)

lemma handle_locked:
  "has_select_for_update m \<Longrightarrow>
   handle m now dry_run db = (Inl TransactionManagementError, db)"
  by (simp add: handle_def Let_def)

lemma handle_db:
  "pk_unique db \<Longrightarrow> \<not> has_select_for_update m \<Longrightarrow>
   snd (handle m now False db)
     = bulk (auto_escalate_row m now) (auto_escalate_history m now)
         (expired_cases now (cases db)) db"
  by (simp add: handle_def Let_def handle_bulk split: prod.splits)

lemma sweep_count_foldl:
  "foldl (sweep_count m now) (e, s, r) qs
     = (e + length (filter (auto_escalate_cond m now) qs),
        s + length (filter (\<lambda>c. \<not> passes_checks m now c) qs),
        r + length (filter (\<lambda>c. passes_checks m now c \<and> \<not> auto_escalate_cond m now c) qs))"
  by (induction qs arbitrary: e s r) (simp_all add: sweep_count_def auto_escalate_cond_def)

lemma handle_summary:
  "pk_unique db \<Longrightarrow> \<not> has_select_for_update m \<Longrightarrow>
   fst (handle m now False db)
     = Inr \<lparr>total_found = length (expired_cases now (cases db)),
            escalated_count
              = length (filter (auto_escalate_cond m now) (expired_cases now (cases db))),
            skipped_count
              = length (filter (\<lambda>c. \<not> passes_checks m now c) (expired_cases now (cases db))),
            error_count
              = length (filter (\<lambda>c. passes_checks m now c \<and> \<not> auto_escalate_cond m now c)
                  (expired_cases now (cases db)))\<rparr>"
  by (simp add: handle_def Let_def handle_bulk sweep_count_foldl split: prod.splits)

lemma handle_dry_run:
  "snd (handle m now True db) = db"
proof -
  have "fst (foldl (handle_step m now True) (db, k) qs) = db" for k qs
    by (induction qs arbitrary: k)
      (auto simp: handle_step_def escalate_case_def Let_def split: prod.splits)
  then show ?thesis
    by (simp add: handle_def Let_def split: prod.splits) (metis fst_conv)
qed

text \<open>
  When the event type cannot be read, no step of the loop changes the tables or
  counts an escalation, whatever the tables hold.
\<close>

lemma escalate_case_no_event_type:
  assumes "map_of (audit_event_types m) ''CASE_ESCALATED'' = None"
  shows "snd (escalate_case m now dry_run db c) = db
     \<and> (\<not> dry_run \<longrightarrow> fst (escalate_case m now dry_run db c) \<noteq> Inr True)"
  using assms
  by (auto simp: escalate_case_def Let_def split: option.splits)

lemma handle_step_no_event_type:
  assumes "map_of (audit_event_types m) ''CASE_ESCALATED'' = None"
  shows "\<exists>k1. handle_step m now dry_run (db, k) c = (db, k1) \<and> (\<not> dry_run \<longrightarrow> fst k1 = fst k)"
proof -
  obtain r db1 where e: "escalate_case m now dry_run db c = (r, db1)"
    by (cases "escalate_case m now dry_run db c") auto
  from escalate_case_no_event_type [OF assms, of now dry_run db c] e
  have db1: "db1 = db" and r: "\<not> dry_run \<Longrightarrow> r \<noteq> Inr True" by simp_all
  obtain es sk er where k: "k = (es, sk, er)" by (cases k) auto
  show ?thesis
  proof (cases r)
    case (Inl x)
    then show ?thesis by (simp add: handle_step_def e db1 k)
  next
    case (Inr y)
    with r show ?thesis by (cases y) (auto simp: handle_step_def e db1 k)
  qed
qed

lemma foldl_no_event_type:
  assumes "map_of (audit_event_types m) ''CASE_ESCALATED'' = None"
  shows "\<exists>k1. foldl (handle_step m now dry_run) (db, k) qs = (db, k1)
           \<and> (\<not> dry_run \<longrightarrow> fst k1 = fst k)"
proof (induction qs arbitrary: k)
  case Nil
  show ?case by simp
next
  case (Cons c qs)
  from handle_step_no_event_type [OF assms, of now dry_run db k c]
  obtain k1 where s: "handle_step m now dry_run (db, k) c = (db, k1)"
    and k1: "\<not> dry_run \<longrightarrow> fst k1 = fst k" by blast
  from Cons.IH [of k1]
  obtain k2 where f: "foldl (handle_step m now dry_run) (db, k1) qs = (db, k2)"
    and k2: "\<not> dry_run \<longrightarrow> fst k2 = fst k1" by blast
  have "foldl (handle_step m now dry_run) (db, k) (c # qs) = (db, k2)"
    by (simp add: s f)
  moreover have "\<not> dry_run \<longrightarrow> fst k2 = fst k" using k1 k2 by simp
  ultimately show ?case by blast
qed

lemma handle_no_event_type:
  assumes "map_of (audit_event_types m) ''CASE_ESCALATED'' = None"
  shows "snd (handle m now dry_run db) = db"
    and "map_sum id escalated_count (fst (handle m now False db)) \<noteq> Inr (Suc n)"
proof -
  from foldl_no_event_type [OF assms, of now dry_run db "(0, 0, 0)" "expired_cases now (cases db)"]
  obtain k1 where f: "foldl (handle_step m now dry_run) (db, 0, 0, 0)
      (expired_cases now (cases db)) = (db, k1)" by blast
  then show "snd (handle m now dry_run db) = db"
    by (cases k1) (simp add: handle_def Let_def)
  from foldl_no_event_type [OF assms, of now False db "(0, 0, 0)" "expired_cases now (cases db)"]
  obtain k2 where f2: "foldl (handle_step m now False) (db, 0, 0, 0)
      (expired_cases now (cases db)) = (db, k2)" and e: "fst k2 = 0" by auto
  then show "map_sum id escalated_count (fst (handle m now False db)) \<noteq> Inr (Suc n)"
    by (cases k2) (simp add: handle_def Let_def)
qed

lemma AuditEventType_CASE_ESCALATED: "map_of AuditEventType ''CASE_ESCALATED'' = None"
  by (simp add: AuditEventType_def)

section \<open>The auto-escalation sweep\<close>

lemma bulk_unchanged:
  assumes "\<forall>c \<in> set qs. upd c = c \<and> hr c = []"
  shows "bulk upd hr qs db = db"
proof -
  have "map (\<lambda>r. if r \<in> set qs then upd r else r) (cases db) = cases db"
    by (rule map_idI) (simp add: assms)
  moreover have "concat (map hr qs) = []"
    using assms by simp
  ultimately show ?thesis by (simp add: bulk_def)
qed

lemma concat_map_if:
  "concat (map (\<lambda>c. if P c then [g c] else []) xs) = map g (filter P xs)"
  by (induction xs) simp_all

lemma expired_cases_iff:
  "c \<in> set (expired_cases t tbl) \<longleftrightarrow>
     c \<in> set tbl \<and> \<not> case_is_deleted c \<and> case_status c = OPEN \<and> sla_deadline c < t
     \<and> current_level c \<noteq> 0"
  by (auto simp: expired_cases_def Case_objects_def CaseLevel_LEVEL_0_def)

lemma cond_on_expired:
  assumes "case_methods_as_specified m"
    and "map_of (audit_event_types m) ''CASE_ESCALATED'' \<noteq> None"
    and "c \<in> set (expired_cases t tbl)"
  shows "auto_escalate_cond m t c = eligible_for_auto_escalation t c"
proof -
  from assms(3) have c: "\<not> case_is_deleted c" "case_status c = OPEN" "sla_deadline c < t"
    by (simp_all add: expired_cases_iff)
  from assms(1) c have "is_sla_expired m c t"
    by (simp add: case_methods_as_specified_def)
  moreover from assms(1) c have "0 < current_level c \<Longrightarrow> fst (can_escalate m c)"
    by (simp add: case_methods_as_specified_def)
  ultimately show ?thesis
    using c assms(2)
    by (auto simp: auto_escalate_cond_def passes_checks_def eligible_for_auto_escalation_def)
qed

lemma eligible_expired:
  "c \<in> set tbl \<Longrightarrow> eligible_for_auto_escalation t c \<Longrightarrow> c \<in> set (expired_cases t tbl)"
  by (simp add: expired_cases_iff eligible_for_auto_escalation_def)

lemma sweep_row:
  assumes "case_methods_as_specified m"
    and "map_of (audit_event_types m) ''CASE_ESCALATED'' \<noteq> None"
    and "r \<in> set tbl"
  shows "(if r \<in> set (expired_cases t tbl) then auto_escalate_row m t r else r)
       = (if eligible_for_auto_escalation t r then escalated_one_level m t r else r)"
proof (cases "r \<in> set (expired_cases t tbl)")
  case True
  then show ?thesis
    using cond_on_expired [OF assms(1,2) True]
    by (simp add: auto_escalate_row_def escalated_one_level_def)
next
  case False
  then have "\<not> eligible_for_auto_escalation t r"
    using eligible_expired [OF assms(3)] by blast
  with False show ?thesis by simp
qed

lemma sweep_cases:
  assumes "pk_unique db" and "case_methods_as_specified m"
    and "map_of (audit_event_types m) ''CASE_ESCALATED'' \<noteq> None"
    and "\<not> has_select_for_update m"
  shows "cases (snd (handle m t False db))
     = map (\<lambda>c. if eligible_for_auto_escalation t c then escalated_one_level m t c else c)
         (cases db)"
proof -
  have "cases (snd (handle m t False db))
      = map (\<lambda>r. if r \<in> set (expired_cases t (cases db)) then auto_escalate_row m t r else r)
          (cases db)"
    by (simp add: handle_db [OF assms(1,4)] bulk_def)
  also have "\<dots> = map (\<lambda>c. if eligible_for_auto_escalation t c
                              then escalated_one_level m t c else c) (cases db)"
    by (rule map_cong [OF refl]) (rule sweep_row [OF assms(2,3)])
  finally show ?thesis .
qed

lemma filter_cond_expired:
  assumes "case_methods_as_specified m"
    and "map_of (audit_event_types m) ''CASE_ESCALATED'' \<noteq> None"
  shows "filter (auto_escalate_cond m t) (expired_cases t tbl)
       = rev (filter (eligible_for_auto_escalation t) tbl)"
proof -
  have "filter (auto_escalate_cond m t) (expired_cases t tbl)
      = filter (eligible_for_auto_escalation t) (expired_cases t tbl)"
    by (rule filter_cong [OF refl]) (rule cond_on_expired [OF assms])
  also have "\<dots> = rev (filter (eligible_for_auto_escalation t) tbl)"
    unfolding expired_cases_def Case_objects_def filter_filter rev_filter [symmetric]
    by (rule arg_cong [where f = rev], rule filter_cong [OF refl])
      (auto simp: eligible_for_auto_escalation_def CaseLevel_LEVEL_0_def)
  finally show ?thesis .
qed

lemma sweep_history:
  assumes "pk_unique db" and "case_methods_as_specified m"
    and "map_of (audit_event_types m) ''CASE_ESCALATED'' \<noteq> None"
    and "\<not> has_select_for_update m"
  shows "history (snd (handle m t False db))
     = history db @ map auto_escalation_entry
         (rev (filter (eligible_for_auto_escalation t) (cases db)))"
proof -
  have h: "auto_escalate_history m t
      = (\<lambda>c. if auto_escalate_cond m t c then [auto_escalation_entry c] else [])"
    by (rule ext) (simp add: auto_escalate_history_def auto_escalation_entry_def)
  have "history (snd (handle m t False db))
      = history db @ concat (map (auto_escalate_history m t) (expired_cases t (cases db)))"
    by (simp add: handle_db [OF assms(1,4)] bulk_def)
  also have "concat (map (auto_escalate_history m t) (expired_cases t (cases db)))
      = map auto_escalation_entry (filter (auto_escalate_cond m t) (expired_cases t (cases db)))"
    unfolding h by (rule concat_map_if)
  finally show ?thesis by (simp add: filter_cond_expired [OF assms(2,3)])
qed

lemma sweep_pk_unique:
  assumes "pk_unique db" and "\<not> has_select_for_update m"
  shows "pk_unique (snd (handle m t False db))"
proof -
  have "map case_id (cases (snd (handle m t False db))) = map case_id (cases db)"
    by (simp add: handle_db [OF assms] bulk_def auto_escalate_row_def)
  then show ?thesis using assms by (simp add: pk_unique_def)
qed

lemma second_sweep_rows:
  assumes "pk_unique db" and "case_methods_as_specified m"
    and "map_of (audit_event_types m) ''CASE_ESCALATED'' \<noteq> None"
    and "\<not> has_select_for_update m"
    and "c \<in> set (expired_cases t (cases (snd (handle m t False db))))"
  shows "\<not> passes_checks m t c"
proof
  assume cond: "passes_checks m t c"
  from assms(5) have c: "c \<in> set (cases (snd (handle m t False db)))"
    and late: "sla_deadline c < t" and nd: "\<not> case_is_deleted c" and op: "case_status c = OPEN"
    by (simp_all add: expired_cases_iff)
  from c obtain r where r: "r \<in> set (cases db)"
    and cr: "c = (if eligible_for_auto_escalation t r then escalated_one_level m t r else r)"
    by (auto simp: sweep_cases [OF assms(1,2,3,4)])
  show False
  proof (cases "eligible_for_auto_escalation t r")
    case True
    then have "sla_deadline c = calculate_sla_deadline_for_level m (current_level r - 1) t"
      by (simp add: cr escalated_one_level_def)
    moreover from assms(2) have "t \<le> calculate_sla_deadline_for_level m (current_level r - 1) t"
      by (simp add: case_methods_as_specified_def)
    ultimately show False using late by simp
  next
    case False
    then have "c = r" by (simp add: cr)
    with False nd op late have "\<not> (0 < current_level c \<and> current_level c \<le> 2)"
      by (simp add: eligible_for_auto_escalation_def)
    with cond show False by (auto simp: passes_checks_def)
  qed
qed

lemma second_sweep:
  assumes "pk_unique db" and "case_methods_as_specified m"
    and "map_of (audit_event_types m) ''CASE_ESCALATED'' \<noteq> None"
    and "\<not> has_select_for_update m"
  shows "snd (handle m t False (snd (handle m t False db))) = snd (handle m t False db)"
    and "map_sum id escalated_count (fst (handle m t False (snd (handle m t False db)))) = Inr 0"
    and "map_sum id error_count (fst (handle m t False (snd (handle m t False db)))) = Inr 0"
proof -
  let ?db1 = "snd (handle m t False db)"
  note pk1 = sweep_pk_unique [OF assms(1,4), of t]
  have no: "\<forall>c \<in> set (expired_cases t (cases ?db1)). \<not> passes_checks m t c"
    using second_sweep_rows [OF assms] by blast
  then have no': "\<forall>c \<in> set (expired_cases t (cases ?db1)). \<not> auto_escalate_cond m t c"
    by (simp add: auto_escalate_cond_def)
  then have "\<forall>c \<in> set (expired_cases t (cases ?db1)).
      auto_escalate_row m t c = c \<and> auto_escalate_history m t c = []"
    by (simp add: auto_escalate_row_def auto_escalate_history_def)
  then show "snd (handle m t False ?db1) = ?db1"
    unfolding handle_db [OF pk1 assms(4)] by (rule bulk_unchanged)
  from no' have "filter (auto_escalate_cond m t) (expired_cases t (cases ?db1)) = []"
    by (simp add: filter_empty_conv)
  then show "map_sum id escalated_count (fst (handle m t False ?db1)) = Inr 0"
    by (simp add: handle_summary [OF pk1 assms(4)])
  from no have "filter (\<lambda>c. passes_checks m t c \<and> \<not> auto_escalate_cond m t c)
      (expired_cases t (cases ?db1)) = []"
    by (simp add: filter_empty_conv)
  then show "map_sum id error_count (fst (handle m t False ?db1)) = Inr 0"
    by (simp add: handle_summary [OF pk1 assms(4)])
qed

text \<open>
  The algorithm of the sweep is the one the specification describes. Had
  \<^verbatim>\<open>AuditEventType\<close> a constant \<^verbatim>\<open>CASE_ESCALATED\<close>, then on a database
  backend without \<^verbatim>\<open>select_for_update\<close> (SQLite), on a case table with unique
  primary keys, and with the three \<^verbatim>\<open>Case\<close> methods behaving as specified, one
  sweep at time \<open>t\<close> would rewrite exactly the eligible cases, each moved down one
  level with its escalation count incremented, its escalation time set and a freshly
  computed deadline; it would append one history entry per escalated case, newest
  case first, with no actor and the auto-escalation flag; and a second sweep at the
  same \<open>t\<close> would leave the tables of the first as they are, escalating no case
  and counting no error.
\<close>

lemma sweep_with_event_type:
  assumes "pk_unique db" and "case_methods_as_specified m"
    and "map_of (audit_event_types m) ''CASE_ESCALATED'' \<noteq> None"
    and "\<not> has_select_for_update m"
  shows "cases (snd (handle m t False db))
       = map (\<lambda>c. if eligible_for_auto_escalation t c then escalated_one_level m t c else c)
           (cases db)"
    and "history (snd (handle m t False db))
         = history db @ map auto_escalation_entry
             (rev (filter (eligible_for_auto_escalation t) (cases db)))"
    and "map_sum id escalated_count (fst (handle m t False db))
         = Inr (length (filter (eligible_for_auto_escalation t) (cases db)))"
    and "snd (handle m t False (snd (handle m t False db))) = snd (handle m t False db)"
    and "map_sum id escalated_count (fst (handle m t False (snd (handle m t False db)))) = Inr 0"
    and "map_sum id error_count (fst (handle m t False (snd (handle m t False db)))) = Inr 0"
proof -
  show "cases (snd (handle m t False db))
       = map (\<lambda>c. if eligible_for_auto_escalation t c then escalated_one_level m t c else c)
           (cases db)"
    by (rule sweep_cases [OF assms])
  show "history (snd (handle m t False db))
         = history db @ map auto_escalation_entry
             (rev (filter (eligible_for_auto_escalation t) (cases db)))"
    by (rule sweep_history [OF assms])
  show "map_sum id escalated_count (fst (handle m t False db))
         = Inr (length (filter (eligible_for_auto_escalation t) (cases db)))"
    by (simp add: handle_summary [OF assms(1,4)] filter_cond_expired [OF assms(2,3)])
  show "snd (handle m t False (snd (handle m t False db))) = snd (handle m t False db)"
    and "map_sum id escalated_count (fst (handle m t False (snd (handle m t False db)))) = Inr 0"
    and "map_sum id error_count (fst (handle m t False (snd (handle m t False db)))) = Inr 0"
    by (rule second_sweep [OF assms])+
qed

lemma spec_case_methods_as_specified: "case_methods_as_specified spec_case_methods"
  by (simp add: case_methods_as_specified_def spec_case_methods_def timedelta_hours_def)

text \<open>
  With a constant \<^verbatim>\<open>CASE_ESCALATED\<close> added to the event types, the sweep of the
  example table escalates case 1 from level 2 to level 1 and a second sweep changes
  nothing.
\<close>

lemma sweep_with_event_type_example:
  "map current_level (cases (snd (handle
       (spec_case_methods\<lparr>audit_event_types := (''CASE_ESCALATED'', ''case.escalated'')
                                                  # AuditEventType\<rparr>) 200 False example_db)))
     = [1, 0, 1, 1]
   \<and> history (snd (handle
       (spec_case_methods\<lparr>audit_event_types := (''CASE_ESCALATED'', ''case.escalated'')
                                                  # AuditEventType\<rparr>) 200 False example_db))
     = [\<lparr>h_case = 1, from_status = Some OPEN, to_status = OPEN, from_level = Some 2,
         to_level = Some 1, changed_by = None, reason = ''SLA expired - auto-escalation'',
         is_auto_escalation = True\<rparr>]"
  by code_simp

text \<open>
  Claim C2. \<^verbatim>\<open>AuditEventType\<close> as audit/models.py declares it has no constant
  \<^verbatim>\<open>CASE_ESCALATED\<close>, so every escalation the sweep attempts raises inside
  its transaction and is rolled back: whatever the three \<^verbatim>\<open>Case\<close> methods do,
  whatever the database backend, and whatever the tables hold, a sweep leaves the
  tables as they were and never reports an escalation. On the example table, whose
  case 1 is OPEN at level 2 with its deadline passed, the sweep at time 200 finds
  the case, counts one error and escalates nothing; on a backend with
  \<^verbatim>\<open>select_for_update\<close> it stops with \<^verbatim>\<open>TransactionManagementError\<close>
  before handling any case.
\<close>

theorem sweep_escalates_nothing:
  "snd (handle (m\<lparr>audit_event_types := AuditEventType\<rparr>) t dry_run db) = db
   \<and> map_sum id escalated_count (fst (handle (m\<lparr>audit_event_types := AuditEventType\<rparr>) t False db))
       \<noteq> Inr (Suc n)
   \<and> filter (eligible_for_auto_escalation 200) (cases example_db) = [example_case 1 2 OPEN 100]
   \<and> handle spec_case_methods 200 False example_db
       = (Inr \<lparr>total_found = 1, escalated_count = 0, skipped_count = 0, error_count = 1\<rparr>,
          example_db)
   \<and> handle (spec_case_methods\<lparr>has_select_for_update := True\<rparr>) 200 False example_db
       = (Inl TransactionManagementError, example_db)"
proof -
  have ev: "map_of (audit_event_types (m\<lparr>audit_event_types := AuditEventType\<rparr>))
      ''CASE_ESCALATED'' = None"
    by (simp add: AuditEventType_CASE_ESCALATED)
  have 1: "snd (handle (m\<lparr>audit_event_types := AuditEventType\<rparr>) t dry_run db) = db"
    by (rule handle_no_event_type(1) [OF ev])
  have 2: "map_sum id escalated_count
      (fst (handle (m\<lparr>audit_event_types := AuditEventType\<rparr>) t False db)) \<noteq> Inr (Suc n)"
    by (rule handle_no_event_type(2) [OF ev])
  have 3: "filter (eligible_for_auto_escalation 200) (cases example_db)
      = [example_case 1 2 OPEN 100]"
    by (simp add: eligible_for_auto_escalation_def example_db_def example_case_def)
  have 4: "handle spec_case_methods 200 False example_db
       = (Inr \<lparr>total_found = 1, escalated_count = 0, skipped_count = 0, error_count = 1\<rparr>,
          example_db)"
    by code_simp
  have 5: "handle (spec_case_methods\<lparr>has_select_for_update := True\<rparr>) 200 False example_db
       = (Inl TransactionManagementError, example_db)"
    by (simp add: handle_locked)
  show ?thesis using 1 2 3 4 5 by blast
qed

section \<open>Every operation rewrites rows in place or inserts a case\<close>

lemma row_update_refl: "row_update db db"
proof -
  have "well_behaved id (\<lambda>c. []) []" by (simp add: well_behaved_def)
  moreover have "db = bulk id (\<lambda>c. []) [] db" by (simp add: bulk_Nil)
  ultimately show ?thesis unfolding row_update_def by (metis distinct.simps(1) empty_set empty_subsetI list.simps(8))
qed

lemma row_neq_status: "case_status r \<noteq> case_status c \<Longrightarrow> r \<noteq> c"
  by auto

lemma row_neq_level: "current_level r \<noteq> current_level c \<Longrightarrow> r \<noteq> c"
  by auto

lemma row_update_single:
  assumes "pk_unique db" and "c \<in> set (cases db)" and "case_id c1 = case_id c"
    and "current_level c1 = current_level c
         \<or> (case_status c = OPEN \<and> current_level c \<noteq> 0 \<and> current_level c1 = current_level c - 1)"
    and "h_case h = case_id c"
    and "\<And>l. to_level h = Some l \<Longrightarrow> current_level c1 \<le> l \<and> l \<le> current_level c"
    and "c1 \<noteq> c"
  shows "row_update db \<lparr>cases = save_case c1 (cases db), history = history db @ [h]\<rparr>"
proof -
  have w: "well_behaved (\<lambda>r. c1) (\<lambda>r. [h]) [c]"
    using assms(3,4,5,6,7) by (simp add: well_behaved_def)
  have d: "distinct (map case_id (cases db))" using assms(1) by (simp add: pk_unique_def)
  have "\<lparr>cases = save_case c1 (cases db), history = history db @ [h]\<rparr>
      = bulk (\<lambda>r. c1) (\<lambda>r. [h]) [c] db"
    by (rule bulk_save [OF d assms(2,3)]) simp_all
  with w assms(2) show ?thesis
    unfolding row_update_def by (intro exI [of _ "\<lambda>r. c1"] exI [of _ "\<lambda>r. [h]"] exI [of _ "[c]"]) simp
qed

lemma authority_view_cases:
  "authority_view post db ru = (permission_denied ru IsLevel1OrLevel2_message, db)
   \<or> authority_view post db ru = (NotAuthenticated, db)
   \<or> (\<exists>u. authority_view post db ru = post u)"
  by (cases ru) (auto simp: authority_view_def)

lemma solve_post_step:
  assumes "pk_unique db"
  shows "row_update db (snd (SolveCaseView_post now db u cid data))"
proof (cases "Case_objects_get (cases db) cid")
  case None
  then show ?thesis by (simp add: SolveCaseView_post_def row_update_refl)
next
  case (Some c)
  note c = Case_objects_get_SomeD [OF Some]
  show ?thesis
  proof (cases "case_status c = OPEN")
    case False
    then show ?thesis using Some by (simp add: SolveCaseView_post_def row_update_refl)
  next
    case True
    have ne: "c\<lparr>case_status := SOLVED, solved_at := Some now,
                   solved_by := Some (user_id u),
                   solution_notes := dict_get data ''solution_notes'' []\<rparr> \<noteq> c"
      using True by (intro row_neq_status) simp
    have "row_update db
        \<lparr>cases = save_case (c\<lparr>case_status := SOLVED, solved_at := Some now,
                   solved_by := Some (user_id u),
                   solution_notes := dict_get data ''solution_notes'' []\<rparr>) (cases db),
         history = history db @
           [\<lparr>h_case = case_id c, from_status = Some OPEN, to_status = SOLVED,
             from_level = None, to_level = None, changed_by = Some (user_id u),
             reason = dict_get data ''solution_notes'' [], is_auto_escalation = False\<rparr>]\<rparr>"
      using c ne by (intro row_update_single [OF assms, of c]) simp_all
    then show ?thesis using Some True by (simp add: SolveCaseView_post_def Let_def)
  qed
qed

lemma reject_post_step:
  assumes "pk_unique db"
  shows "row_update db (snd (RejectCaseView_post now db u cid data))"
proof (cases "Case_objects_get (cases db) cid")
  case None
  then show ?thesis by (simp add: RejectCaseView_post_def row_update_refl)
next
  case (Some c)
  note c = Case_objects_get_SomeD [OF Some]
  show ?thesis
  proof (cases "case_status c = OPEN \<and> dict_get data ''reason'' [] \<noteq> []")
    case False
    then show ?thesis
      using Some by (auto simp: RejectCaseView_post_def Let_def row_update_refl)
  next
    case True
    have ne: "c\<lparr>case_status := REJECTED, rejected_at := Some now,
                   rejected_by := Some (user_id u),
                   rejection_reason := dict_get data ''reason'' []\<rparr> \<noteq> c"
      using True by (intro row_neq_status) simp
    have "row_update db
        \<lparr>cases = save_case (c\<lparr>case_status := REJECTED, rejected_at := Some now,
                   rejected_by := Some (user_id u),
                   rejection_reason := dict_get data ''reason'' []\<rparr>) (cases db),
         history = history db @
           [\<lparr>h_case = case_id c, from_status = Some OPEN, to_status = REJECTED,
             from_level = None, to_level = None, changed_by = Some (user_id u),
             reason = dict_get data ''reason'' [], is_auto_escalation = False\<rparr>]\<rparr>"
      using c ne by (intro row_update_single [OF assms, of c]) simp_all
    then show ?thesis using Some True by (simp add: RejectCaseView_post_def Let_def)
  qed
qed

lemma forward_post_step:
  assumes "pk_unique db"
  shows "row_update db (snd (ForwardCaseView_post now db u cid data))"
proof (cases "Case_objects_get (cases db) cid")
  case None
  then show ?thesis by (simp add: ForwardCaseView_post_def row_update_refl)
next
  case (Some c)
  note c = Case_objects_get_SomeD [OF Some]
  show ?thesis
  proof (cases "case_status c = OPEN \<and> 0 < current_level c")
    case False
    then show ?thesis
      using Some
      by (auto simp: ForwardCaseView_post_def Let_def row_update_refl CaseLevel_LEVEL_0_def)
  next
    case True
    have ne: "c\<lparr>current_level := current_level c - 1,
                   escalation_count := escalation_count c + 1,
                   last_escalated_at := Some now,
                   sla_deadline := now + timedelta_hours 24\<rparr> \<noteq> c"
      using True by (intro row_neq_level) simp
    have "row_update db
        \<lparr>cases = save_case (c\<lparr>current_level := current_level c - 1,
                   escalation_count := escalation_count c + 1,
                   last_escalated_at := Some now,
                   sla_deadline := now + timedelta_hours 24\<rparr>) (cases db),
         history = history db @
           [\<lparr>h_case = case_id c, from_status = Some OPEN, to_status = OPEN,
             from_level = Some (current_level c), to_level = Some (current_level c - 1),
             changed_by = Some (user_id u),
             reason = (if dict_get data ''reason'' [] \<noteq> [] then dict_get data ''reason'' []
                       else ''Forwarded to higher level''),
             is_auto_escalation = False\<rparr>]\<rparr>"
      using c ne True by (intro row_update_single [OF assms, of c]) simp_all
    then show ?thesis
      using Some True by (simp add: ForwardCaseView_post_def Let_def CaseLevel_LEVEL_0_def)
  qed
qed

lemma view_step:
  assumes "\<And>u. row_update db (snd (post u))"
  shows "row_update db (snd (authority_view post db ru))"
  using authority_view_cases [of post db ru] assms row_update_refl [of db] by auto

lemma force_close_row_same:
  "(force_close_row c = c) = (case_status c \<in> set [SOLVED, REJECTED, CLOSED])"
proof (cases "case_status c \<in> set [SOLVED, REJECTED, CLOSED]")
  case True
  then show ?thesis by (simp add: force_close_row_def)
next
  case False
  then have "c\<lparr>case_status := CLOSED\<rparr> \<noteq> c" by (intro row_neq_status) auto
  with False show ?thesis by (simp add: force_close_row_def)
qed

lemma force_escalate_row_same:
  "(force_escalate_row now c = c) = (case_status c \<noteq> OPEN \<or> current_level c = 0)"
proof (cases "case_status c \<noteq> OPEN \<or> current_level c = 0")
  case True
  then show ?thesis by (simp add: force_escalate_row_def)
next
  case False
  have "c\<lparr>current_level := current_level c - 1,
          escalation_count := escalation_count c + 1,
          last_escalated_at := Some now,
          sla_deadline := now + timedelta_hours 24\<rparr> \<noteq> c"
    by (intro row_neq_level) simp
  with False show ?thesis by (simp add: force_escalate_row_def)
qed

lemma auto_escalate_row_same:
  "(auto_escalate_row m now c = c) = (\<not> auto_escalate_cond m now c)"
proof (cases "auto_escalate_cond m now c")
  case False
  then show ?thesis by (simp add: auto_escalate_row_def)
next
  case True
  have "c\<lparr>current_level := current_level c - 1,
          escalation_count := escalation_count c + 1,
          last_escalated_at := Some now,
          sla_deadline := calculate_sla_deadline_for_level m (current_level c - 1) now\<rparr> \<noteq> c"
    by (intro row_neq_level) simp
  with True show ?thesis by (simp add: auto_escalate_row_def)
qed

lemma well_behaved_force_close: "well_behaved force_close_row (force_close_history u) qs"
  unfolding well_behaved_def force_close_row_same
  by (simp add: force_close_row_def force_close_history_def)

lemma well_behaved_force_escalate:
  "well_behaved (force_escalate_row now) (force_escalate_history u) qs"
  unfolding well_behaved_def force_escalate_row_same
  by (simp add: force_escalate_row_def force_escalate_history_def)

lemma well_behaved_auto_escalate:
  "well_behaved (auto_escalate_row m now) (auto_escalate_history m now) qs"
  unfolding well_behaved_def auto_escalate_row_same
  by (auto simp: auto_escalate_row_def auto_escalate_history_def auto_escalate_cond_def
      passes_checks_def)

lemma row_updateI:
  "well_behaved upd hr qs \<Longrightarrow> set qs \<subseteq> set (cases db) \<Longrightarrow> distinct (map case_id qs) \<Longrightarrow>
   row_update db (bulk upd hr qs db)"
  unfolding row_update_def by blast

lemma force_close_step_form:
  assumes "pk_unique db"
  shows "row_update db (fst (force_close_case db u selected))"
  unfolding force_close_case_bulk [OF assms]
  using assms
  by (intro row_updateI well_behaved_force_close admin_queryset_rows) (simp add: pk_unique_def)

lemma force_escalate_step_form:
  assumes "pk_unique db"
  shows "row_update db (fst (force_escalate_case now db u selected))"
  unfolding force_escalate_case_bulk [OF assms]
  using assms
  by (intro row_updateI well_behaved_force_escalate admin_queryset_rows) (simp add: pk_unique_def)

lemma handle_step_form:
  assumes "pk_unique db"
  shows "row_update db (snd (handle m now dry_run db))"
proof (cases "dry_run \<or> has_select_for_update m")
  case True
  then show ?thesis by (auto simp: handle_dry_run handle_locked row_update_refl)
next
  case False
  have "row_update db (bulk (auto_escalate_row m now) (auto_escalate_history m now)
          (expired_cases now (cases db)) db)"
    using assms
    by (intro row_updateI well_behaved_auto_escalate expired_cases_rows) (simp add: pk_unique_def)
  then show ?thesis using False by (simp add: handle_db [OF assms])
qed

lemma create_post_step:
  "row_update db (snd (IncidentBroadcastView_post now db u new_incident new_case data))
   \<or> row_insert db (snd (IncidentBroadcastView_post now db u new_incident new_case data))"
proof (cases "strip (dict_get data ''text_content'' []) = []
    \<or> list_ex (\<lambda>r. case_id r = new_case \<or> incident r = new_incident) (cases db)")
  case True
  then show ?thesis
    by (auto simp: IncidentBroadcastView_post_def Let_def row_update_refl)
next
  case False
  then have fresh: "new_case \<notin> case_id ` set (cases db)"
    by (auto simp: list_ex_iff)
  have "row_insert db (snd (IncidentBroadcastView_post now db u new_incident new_case data))"
    unfolding row_insert_def
    using False fresh
    by (simp add: IncidentBroadcastView_post_def Let_def CaseLevel_LEVEL_2_def)
  then show ?thesis ..
qed

lemma apply_operation_step:
  assumes "pk_unique db"
  shows "row_update db (apply_operation m op db) \<or> row_insert db (apply_operation m op db)"
proof (cases op)
  case (Create now ru new_incident new_case data)
  have "snd (IncidentBroadcastView now db ru new_incident new_case data) = db
      \<or> (\<exists>u. snd (IncidentBroadcastView now db ru new_incident new_case data)
             = snd (IncidentBroadcastView_post now db u new_incident new_case data))"
    by (cases ru) (auto simp: IncidentBroadcastView_def)
  then show ?thesis
  proof
    assume "snd (IncidentBroadcastView now db ru new_incident new_case data) = db"
    then show ?thesis using row_update_refl [of db] by (simp add: Create)
  next
    assume "\<exists>u. snd (IncidentBroadcastView now db ru new_incident new_case data)
             = snd (IncidentBroadcastView_post now db u new_incident new_case data)"
    then obtain u where "snd (IncidentBroadcastView now db ru new_incident new_case data)
             = snd (IncidentBroadcastView_post now db u new_incident new_case data)" ..
    then show ?thesis
      using create_post_step [of db now u new_incident new_case data] by (simp add: Create)
  qed
next
  case (Solve now ru cid data)
  then show ?thesis
    using view_step [of db "\<lambda>u. SolveCaseView_post now db u cid data" ru]
      solve_post_step [OF assms] by (simp add: SolveCaseView_def)
next
  case (Forward now ru cid data)
  then show ?thesis
    using view_step [of db "\<lambda>u. ForwardCaseView_post now db u cid data" ru]
      forward_post_step [OF assms] by (simp add: ForwardCaseView_def)
next
  case (Reject now ru cid data)
  then show ?thesis
    using view_step [of db "\<lambda>u. RejectCaseView_post now db u cid data" ru]
      reject_post_step [OF assms] by (simp add: RejectCaseView_def)
next
  case (ForceEscalate now admin selected)
  then show ?thesis by (simp add: force_escalate_step_form [OF assms])
next
  case (ForceClose admin selected)
  then show ?thesis by (simp add: force_close_step_form [OF assms])
next
  case (AutoEscalate now dry_run)
  then show ?thesis by (simp add: handle_step_form [OF assms])
qed

section \<open>The invariant of the case tables\<close>

lemma well_behaved_lower:
  "well_behaved upd hr qs \<Longrightarrow> c \<in> set qs \<Longrightarrow> current_level (upd c) \<le> current_level c"
  unfolding well_behaved_def by force

lemma well_behaved_id:
  "well_behaved upd hr qs \<Longrightarrow> c \<in> set qs \<Longrightarrow> case_id (upd c) = case_id c"
  unfolding well_behaved_def by blast

lemma well_behaved_history:
  "well_behaved upd hr qs \<Longrightarrow> c \<in> set qs \<Longrightarrow> h \<in> set (hr c) \<Longrightarrow>
   h_case h = case_id c
   \<and> (\<forall>l. to_level h = Some l \<longrightarrow> current_level (upd c) \<le> l \<and> l \<le> current_level c)"
  unfolding well_behaved_def by blast

lemma bulk_ids:
  assumes "well_behaved upd hr qs"
  shows "map case_id (cases (bulk upd hr qs db)) = map case_id (cases db)"
proof -
  have "map (case_id \<circ> (\<lambda>r. if r \<in> set qs then upd r else r)) (cases db)
      = map case_id (cases db)"
    by (rule map_cong [OF refl]) (simp add: well_behaved_id [OF assms])
  then show ?thesis by (simp add: bulk_def)
qed

lemma new_rows_cases:
  assumes "well_behaved upd hr qs"
  shows "h \<in> set (concat (map hr qs)) \<Longrightarrow> \<exists>c \<in> set qs. h \<in> set (hr c)"
  by auto

lemma new_rows_distinct:
  assumes "well_behaved upd hr qs" and "distinct (map case_id qs)"
  shows "distinct (map h_case (concat (map hr qs)))"
  using assms
proof (induction qs)
  case Nil
  then show ?case by simp
next
  case (Cons c qs)
  have w: "well_behaved upd hr qs"
    using Cons.prems(1) by (simp add: well_behaved_def)
  have one: "length (hr c) \<le> 1" and own: "\<forall>h \<in> set (hr c). h_case h = case_id c"
    using Cons.prems(1) by (simp_all add: well_behaved_def)
  have d1: "distinct (map h_case (hr c))"
    using one by (cases "hr c") simp_all
  have rest: "h_case h \<noteq> case_id c" if "h \<in> set (concat (map hr qs))" for h
  proof -
    from that obtain c' where c': "c' \<in> set qs" "h \<in> set (hr c')" by auto
    then have "h_case h = case_id c'" using well_behaved_history [OF w] by blast
    moreover have "case_id c' \<noteq> case_id c"
    proof -
      from c'(1) have "case_id c' \<in> case_id ` set qs" by (rule imageI)
      moreover have "case_id c \<notin> case_id ` set qs" using Cons.prems(2) by simp
      ultimately show ?thesis by metis
    qed
    ultimately show ?thesis by simp
  qed
  define B where "B = set (concat (map hr qs))"
  have dis: "h_case a \<noteq> h_case b" if "a \<in> set (hr c)" and "b \<in> B" for a b
    using own rest that unfolding B_def by metis
  have "h_case ` set (hr c) \<inter> h_case ` B = {}"
  proof (rule equals0I)
    fix i assume "i \<in> h_case ` set (hr c) \<inter> h_case ` B"
    then obtain a b where "a \<in> set (hr c)" "i = h_case a" "b \<in> B" "i = h_case b"
      by blast
    then show False using dis by metis
  qed
  then have "set (map h_case (hr c)) \<inter> set (map h_case (concat (map hr qs))) = {}"
    unfolding B_def by simp
  then show ?case
    using d1 Cons.IH [OF w] Cons.prems(2) by simp
qed

lemma sorted_wrt_distinct_cases:
  "distinct (map h_case hs) \<Longrightarrow> sorted_wrt level_order hs"
proof (induction hs)
  case Nil
  show ?case by simp
next
  case (Cons h hs)
  have "level_order h h'" if "h' \<in> set hs" for h'
  proof -
    from that have "h_case h' \<in> h_case ` set hs" by (rule imageI)
    moreover have "h_case h \<notin> h_case ` set hs" using Cons.prems by simp
    ultimately have "h_case h \<noteq> h_case h'" by metis
    then show ?thesis by (simp add: level_order_def)
  qed
  then show ?case using Cons by simp
qed

lemma case_inv_update:
  assumes inv: "case_inv db" and w: "well_behaved upd hr qs"
    and sub: "set qs \<subseteq> set (cases db)" and dq: "distinct (map case_id qs)"
  shows "case_inv (bulk upd hr qs db)"
proof -
  let ?f = "\<lambda>r. if r \<in> set qs then upd r else r"
  from inv have pk: "distinct (map case_id (cases db))"
    and lv: "\<forall>c \<in> set (cases db). 0 \<le> current_level c \<and> current_level c \<le> 2"
    and so: "sorted_wrt level_order (history db)"
    and bd: "\<forall>h \<in> set (history db). \<exists>c \<in> set (cases db). case_id c = h_case h
            \<and> (\<forall>l. to_level h = Some l \<longrightarrow> current_level c \<le> l)"
    by (simp_all add: case_inv_def pk_unique_def)
  have f_id: "case_id (?f r) = case_id r" for r
    using well_behaved_id [OF w] by simp
  have f_low: "current_level (?f r) \<le> current_level r" for r
    using well_behaved_lower [OF w] by simp
  have 1: "pk_unique (bulk upd hr qs db)"
    using pk by (simp add: pk_unique_def bulk_ids [OF w])
  have 2: "\<forall>c \<in> set (cases (bulk upd hr qs db)). 0 \<le> current_level c \<and> current_level c \<le> 2"
  proof
    fix c assume "c \<in> set (cases (bulk upd hr qs db))"
    then obtain r where r: "r \<in> set (cases db)" and c: "c = ?f r"
      by (auto simp: bulk_def)
    show "0 \<le> current_level c \<and> current_level c \<le> 2"
    proof (cases "r \<in> set qs")
      case False
      then show ?thesis using c r lv by simp
    next
      case True
      then have "current_level (upd r) = current_level r
          \<or> (current_level r \<noteq> 0 \<and> current_level (upd r) = current_level r - 1)"
        using w unfolding well_behaved_def by blast
      moreover have "0 \<le> current_level r \<and> current_level r \<le> 2" using lv r by blast
      ultimately show ?thesis using c True by auto
    qed
  qed
  have cross: "level_order x y"
    if x: "x \<in> set (history db)" and y: "y \<in> set (concat (map hr qs))" for x y
  proof -
    from y obtain c where c: "c \<in> set qs" "y \<in> set (hr c)" by auto
    note yc = well_behaved_history [OF w c]
    show ?thesis
      unfolding level_order_def
    proof (intro impI)
      assume same: "h_case x = h_case y"
      from bd x obtain c0 where c0: "c0 \<in> set (cases db)" "case_id c0 = h_case x"
        "\<forall>l. to_level x = Some l \<longrightarrow> current_level c0 \<le> l" by blast
      have "c0 = c"
        using same_id_same_row [OF pk _ c0(1), of c] c(1) sub c0(2) same yc by auto
      then show "case to_level x of None \<Rightarrow> True
          | Some a \<Rightarrow> (case to_level y of None \<Rightarrow> True | Some b \<Rightarrow> b \<le> a)"
        using c0(3) yc by (auto split: option.splits)
    qed
  qed
  have 3: "sorted_wrt level_order (history (bulk upd hr qs db))"
    using so sorted_wrt_distinct_cases [OF new_rows_distinct [OF w dq]] cross
    by (simp add: bulk_def sorted_wrt_append)
  have 4: "\<forall>h \<in> set (history (bulk upd hr qs db)).
      \<exists>c \<in> set (cases (bulk upd hr qs db)). case_id c = h_case h
            \<and> (\<forall>l. to_level h = Some l \<longrightarrow> current_level c \<le> l)"
  proof
    fix h assume "h \<in> set (history (bulk upd hr qs db))"
    then consider (old) "h \<in> set (history db)" | (new) "h \<in> set (concat (map hr qs))"
      by (auto simp: bulk_def)
    then show "\<exists>c \<in> set (cases (bulk upd hr qs db)). case_id c = h_case h
            \<and> (\<forall>l. to_level h = Some l \<longrightarrow> current_level c \<le> l)"
    proof cases
      case old
      with bd obtain c0 where c0: "c0 \<in> set (cases db)" "case_id c0 = h_case h"
        "\<forall>l. to_level h = Some l \<longrightarrow> current_level c0 \<le> l" by blast
      have "?f c0 \<in> set (cases (bulk upd hr qs db))"
        using c0(1) by (simp add: bulk_def)
      moreover have "case_id (?f c0) = h_case h" using f_id [of c0] c0(2) by simp
      moreover have "\<forall>l. to_level h = Some l \<longrightarrow> current_level (?f c0) \<le> l"
        using c0(3) f_low [of c0] by force
      ultimately show ?thesis by blast
    next
      case new
      then obtain c where c: "c \<in> set qs" "h \<in> set (hr c)" by auto
      note hc = well_behaved_history [OF w c]
      have "upd c \<in> set (cases (bulk upd hr qs db))"
        using c(1) sub by (force simp: bulk_def)
      moreover have "case_id (upd c) = h_case h"
        using well_behaved_id [OF w c(1)] hc by simp
      ultimately show ?thesis using hc by blast
    qed
  qed
  show ?thesis using 1 2 3 4 by (simp add: case_inv_def)
qed

lemma case_inv_insert:
  assumes inv: "case_inv db" and fresh: "case_id c \<notin> case_id ` set (cases db)"
    and lvl: "current_level c = 2" and hc: "h_case h = case_id c" and hl: "to_level h = Some 2"
  shows "case_inv \<lparr>cases = cases db @ [c], history = history db @ [h]\<rparr>"
proof -
  from inv have pk: "distinct (map case_id (cases db))"
    and lv: "\<forall>c \<in> set (cases db). 0 \<le> current_level c \<and> current_level c \<le> 2"
    and so: "sorted_wrt level_order (history db)"
    and bd: "\<forall>h \<in> set (history db). \<exists>c \<in> set (cases db). case_id c = h_case h
            \<and> (\<forall>l. to_level h = Some l \<longrightarrow> current_level c \<le> l)"
    by (simp_all add: case_inv_def pk_unique_def)
  have cross: "level_order x h" if "x \<in> set (history db)" for x
  proof -
    from bd that obtain c0 where "c0 \<in> set (cases db)" "case_id c0 = h_case x" by blast
    then have "h_case x \<in> case_id ` set (cases db)" by (metis imageI)
    with fresh hc have "h_case x \<noteq> h_case h" by metis
    then show ?thesis by (simp add: level_order_def)
  qed
  have 3: "sorted_wrt level_order (history db @ [h])"
    using so cross by (simp add: sorted_wrt_append)
  have 4: "\<forall>x \<in> set (history db @ [h]). \<exists>r \<in> set (cases db @ [c]). case_id r = h_case x
            \<and> (\<forall>l. to_level x = Some l \<longrightarrow> current_level r \<le> l)"
  proof
    fix x assume "x \<in> set (history db @ [h])"
    then consider "x \<in> set (history db)" | "x = h" by auto
    then show "\<exists>r \<in> set (cases db @ [c]). case_id r = h_case x
            \<and> (\<forall>l. to_level x = Some l \<longrightarrow> current_level r \<le> l)"
    proof cases
      case 1
      with bd obtain c0 where "c0 \<in> set (cases db)" "case_id c0 = h_case x"
        "\<forall>l. to_level x = Some l \<longrightarrow> current_level c0 \<le> l" by blast
      then show ?thesis by auto
    next
      case 2
      then show ?thesis using hc hl lvl by simp
    qed
  qed
  show ?thesis
    using pk fresh lv lvl 3 4 by (simp add: case_inv_def pk_unique_def)
qed

lemma case_inv_step:
  assumes "case_inv db" and "row_update db db' \<or> row_insert db db'"
  shows "case_inv db'"
  using assms(2)
proof
  assume "row_update db db'"
  then obtain upd hr qs where "well_behaved upd hr qs" "set qs \<subseteq> set (cases db)"
    "distinct (map case_id qs)" "db' = bulk upd hr qs db"
    unfolding row_update_def by blast
  then show ?thesis using case_inv_update [OF assms(1)] by simp
next
  assume "row_insert db db'"
  then obtain c h where "case_id c \<notin> case_id ` set (cases db)" "current_level c = 2"
    "h_case h = case_id c" "to_level h = Some 2"
    "db' = \<lparr>cases = cases db @ [c], history = history db @ [h]\<rparr>"
    unfolding row_insert_def by blast
  then show ?thesis using case_inv_insert [OF assms(1)] by simp
qed

lemma case_inv_apply:
  "case_inv db \<Longrightarrow> case_inv (apply_operation m op db)"
  using apply_operation_step [of db m op] case_inv_step [of db "apply_operation m op db"]
  by (simp add: case_inv_def)

lemma case_inv_run:
  "case_inv db \<Longrightarrow> case_inv (run_operations m ops db)"
  by (induction ops arbitrary: db) (simp_all add: case_inv_apply)

lemma case_inv_empty: "case_inv empty_db"
  by (simp add: case_inv_def pk_unique_def empty_db_def)

section \<open>Levels only go down\<close>

lemma find_map_same_id:
  "\<forall>r \<in> set xs. case_id (f r) = case_id r \<Longrightarrow>
   find (\<lambda>c. case_id c = i) (map f xs) = map_option f (find (\<lambda>c. case_id c = i) xs)"
  by (induction xs) simp_all

lemma find_append_Some:
  "find P xs = Some x \<Longrightarrow> find P (xs @ ys) = Some x"
  by (induction xs) (simp_all split: if_splits)

lemma case_by_id_SomeD:
  "case_by_id db i = Some c \<Longrightarrow> c \<in> set (cases db) \<and> case_id c = i"
  by (auto simp: case_by_id_def find_Some_iff dest: nth_mem)

lemma level_step:
  assumes inv: "case_inv db" and step: "row_update db db' \<or> row_insert db db'"
    and c: "case_by_id db i = Some c"
  shows "\<exists>c'. case_by_id db' i = Some c' \<and> current_level c' \<le> current_level c
      \<and> (current_level c' \<noteq> current_level c \<longrightarrow>
           case_status c = OPEN \<and> 0 < current_level c
           \<and> current_level c' = current_level c - 1)"
  using step
proof
  assume "row_insert db db'"
  then obtain r h where "db' = \<lparr>cases = cases db @ [r], history = history db @ [h]\<rparr>"
    unfolding row_insert_def by blast
  then have "case_by_id db' i = Some c"
    using c by (simp add: case_by_id_def find_append_Some)
  then show ?thesis by simp
next
  assume "row_update db db'"
  then obtain upd hr qs where w: "well_behaved upd hr qs" and db': "db' = bulk upd hr qs db"
    unfolding row_update_def by blast
  let ?f = "\<lambda>r. if r \<in> set qs then upd r else r"
  have "\<forall>r \<in> set (cases db). case_id (?f r) = case_id r"
    using well_behaved_id [OF w] by simp
  then have g: "case_by_id db' i = Some (?f c)"
    using c by (simp add: case_by_id_def db' bulk_def find_map_same_id)
  from inv case_by_id_SomeD [OF c] have nonneg: "0 \<le> current_level c"
    by (simp add: case_inv_def)
  show ?thesis
  proof (cases "c \<in> set qs")
    case False
    then show ?thesis using g by simp
  next
    case True
    then have "current_level (upd c) = current_level c
          \<or> (case_status c = OPEN \<and> current_level c \<noteq> 0
              \<and> current_level (upd c) = current_level c - 1)"
      using w unfolding well_behaved_def by blast
    then show ?thesis using g True nonneg by auto
  qed
qed

text \<open>
  Claim C7. In every state reached from the empty tables by any sequence of
  operations (submission, solve, reject, forward, the two admin actions, the sweep,
  with any behaviour of the three missing \<^verbatim>\<open>Case\<close> methods, any event types
  and either kind of database backend), the history is in
  level order: of two rows of the same case the later never records a higher level.
  Every level lies between 0 and 2, and one more operation leaves each case's level
  or lowers it by exactly one, the latter only from an OPEN case above level 0.
\<close>

theorem level_monotonicity:
  "db = run_operations m ops empty_db \<longrightarrow>
     sorted_wrt level_order (history db)
     \<and> (\<forall>c \<in> set (cases db). 0 \<le> current_level c \<and> current_level c \<le> 2)
     \<and> (case_by_id db i = Some c \<longrightarrow>
          (\<exists>c'. case_by_id (apply_operation m op db) i = Some c'
             \<and> current_level c' \<le> current_level c
             \<and> (current_level c' \<noteq> current_level c \<longrightarrow>
                  case_status c = OPEN \<and> 0 < current_level c
                  \<and> current_level c' = current_level c - 1)))"
proof (intro impI conjI)
  assume db: "db = run_operations m ops empty_db"
  then have inv: "case_inv db"
    using case_inv_run [OF case_inv_empty] by simp
  then show "sorted_wrt level_order (history db)"
    and "\<forall>c \<in> set (cases db). 0 \<le> current_level c \<and> current_level c \<le> 2"
    by (simp_all add: case_inv_def)
  assume "case_by_id db i = Some c"
  moreover from inv have "pk_unique db" by (simp add: case_inv_def)
  ultimately show "\<exists>c'. case_by_id (apply_operation m op db) i = Some c'
             \<and> current_level c' \<le> current_level c
             \<and> (current_level c' \<noteq> current_level c \<longrightarrow>
                  case_status c = OPEN \<and> 0 < current_level c
                  \<and> current_level c' = current_level c - 1)"
    using level_step [OF inv apply_operation_step] by blast
qed

lemma example_run:
  "run_operations spec_case_methods example_operations empty_db
     = \<lparr>cases = [(example_case 1 0 OPEN (timedelta_hours 24 + 60 + timedelta_hours 24))
                  \<lparr>incident := 10, escalation_count := 2,
                    last_escalated_at := Some (timedelta_hours 24 + 60)\<rparr>],
        history = [\<lparr>h_case = 1, from_status = None, to_status = OPEN, from_level = None,
                    to_level = Some 2, changed_by = Some 5, reason = ''Initial submission'',
                    is_auto_escalation = False\<rparr>,
                   \<lparr>h_case = 1, from_status = Some OPEN, to_status = OPEN, from_level = Some 2,
                    to_level = Some 1, changed_by = Some 7, reason = ''needs senior review'',
                    is_auto_escalation = False\<rparr>,
                   \<lparr>h_case = 1, from_status = Some OPEN, to_status = OPEN, from_level = Some 1,
                    to_level = Some 0, changed_by = Some 9,
                    reason = ''Admin force escalation by officer'',
                    is_auto_escalation = False\<rparr>]\<rparr>"
  by code_simp

lemma example_created:
  "run_operations spec_case_methods [example_submission] empty_db
     = \<lparr>cases = [(example_case 1 2 OPEN (timedelta_hours 24))\<lparr>incident := 10\<rparr>],
        history = [\<lparr>h_case = 1, from_status = None, to_status = OPEN, from_level = None,
                    to_level = Some 2, changed_by = Some 5, reason = ''Initial submission'',
                    is_auto_escalation = False\<rparr>]\<rparr>"
  by code_simp

theorem level_monotonicity_witness:
  "map to_level (history (run_operations spec_case_methods example_operations empty_db))
     = [Some 2, Some 1, Some 0]
   \<and> sorted_wrt level_order
        (history (run_operations spec_case_methods example_operations empty_db))
   \<and> case_by_id (run_operations spec_case_methods [example_submission] empty_db) 1
       = Some ((example_case 1 2 OPEN (timedelta_hours 24))\<lparr>incident := 10\<rparr>)
   \<and> (\<exists>c'. case_by_id (apply_operation spec_case_methods example_forward
                (run_operations spec_case_methods [example_submission] empty_db)) 1 = Some c'
          \<and> current_level c' \<le> 2)
   \<and> map_option current_level
        (case_by_id (apply_operation spec_case_methods example_forward
           (run_operations spec_case_methods [example_submission] empty_db)) 1) = Some 1"
proof -
  have 1: "map to_level (history (run_operations spec_case_methods example_operations empty_db))
     = [Some 2, Some 1, Some 0]"
    by (simp add: example_run)
  have 2: "sorted_wrt level_order
        (history (run_operations spec_case_methods example_operations empty_db))"
    using level_monotonicity [of "run_operations spec_case_methods example_operations empty_db"
        spec_case_methods example_operations 1 "example_case 1 2 OPEN 0" example_forward]
    by simp
  have 3: "case_by_id (run_operations spec_case_methods [example_submission] empty_db) 1
       = Some ((example_case 1 2 OPEN (timedelta_hours 24))\<lparr>incident := 10\<rparr>)"
    unfolding example_created by (simp add: case_by_id_def example_case_def)
  have l: "current_level ((example_case 1 2 OPEN (timedelta_hours 24))\<lparr>incident := 10\<rparr>) = 2"
    by (simp add: example_case_def)
  have 4: "\<exists>c'. case_by_id (apply_operation spec_case_methods example_forward
                (run_operations spec_case_methods [example_submission] empty_db)) 1 = Some c'
          \<and> current_level c' \<le> 2"
    using level_monotonicity [of "run_operations spec_case_methods [example_submission] empty_db"
        spec_case_methods "[example_submission]" 1
        "(example_case 1 2 OPEN (timedelta_hours 24))\<lparr>incident := 10\<rparr>" example_forward] 3 l
    by auto
  have 5: "map_option current_level
        (case_by_id (apply_operation spec_case_methods example_forward
           (run_operations spec_case_methods [example_submission] empty_db)) 1) = Some 1"
    by code_simp
  show ?thesis using 1 2 3 4 5 by blast
qed

section \<open>One history row for every change of a case\<close>

lemma image_neq: "y \<notin> f ` S \<Longrightarrow> x \<in> S \<Longrightarrow> f x \<noteq> y"
  by auto

lemma case_by_id_row:
  assumes "pk_unique db" and "c \<in> set (cases db)"
  shows "case_by_id db (case_id c) = Some c"
proof -
  from assms(2) obtain r where r: "find (\<lambda>x. case_id x = case_id c) (cases db) = Some r"
    by (cases "find (\<lambda>x. case_id x = case_id c) (cases db)") (auto simp: find_None_iff)
  then have "r \<in> set (cases db)" and "case_id r = case_id c"
    by (auto simp: find_Some_iff dest: nth_mem)
  then have "r = c"
    using same_id_same_row [of "cases db" c r] assms by (simp add: pk_unique_def)
  with r show ?thesis by (simp add: case_by_id_def)
qed

lemma find_append_cases:
  "find P (xs @ ys) = (case find P xs of None \<Rightarrow> find P ys | Some x \<Rightarrow> Some x)"
  by (induction xs) simp_all

lemma new_rows_for:
  assumes "well_behaved upd hr qs" and "distinct (map case_id qs)"
  shows "filter (\<lambda>h. h_case h = i) (concat (map hr qs))
       = (case find (\<lambda>c. case_id c = i) qs of None \<Rightarrow> [] | Some c \<Rightarrow> hr c)"
  using assms
proof (induction qs)
  case Nil
  show ?case by simp
next
  case (Cons c qs)
  have w: "well_behaved upd hr qs"
    using Cons.prems(1) by (simp add: well_behaved_def)
  have own: "\<forall>h \<in> set (hr c). h_case h = case_id c"
    using Cons.prems(1) by (simp add: well_behaved_def)
  from Cons.prems(2) have d: "distinct (map case_id qs)" and nc: "case_id c \<notin> case_id ` set qs"
    by simp_all
  note IH = Cons.IH [OF w d]
  show ?case
  proof (cases "case_id c = i")
    case True
    have "filter (\<lambda>h. h_case h = i) (hr c) = hr c"
      using own True by (simp add: filter_id_conv)
    moreover have "find (\<lambda>c. case_id c = i) qs = None"
      using image_neq [OF nc] True by (simp add: find_None_iff)
    ultimately show ?thesis using IH True by simp
  next
    case False
    have "filter (\<lambda>h. h_case h = i) (hr c) = []"
      using own False by (simp add: filter_empty_conv)
    then show ?thesis using IH False by simp
  qed
qed

lemma count_update:
  assumes inv: "case_inv db" and w: "well_behaved upd hr qs"
    and sub: "set qs \<subseteq> set (cases db)" and dq: "distinct (map case_id qs)"
  shows "length (history_rows_of i (bulk upd hr qs db))
       = length (history_rows_of i db)
         + (if case_by_id (bulk upd hr qs db) i = case_by_id db i then 0 else 1)"
proof -
  let ?f = "\<lambda>r. if r \<in> set qs then upd r else r"
  from inv have pk: "pk_unique db" by (simp add: case_inv_def)
  have "\<forall>r \<in> set (cases db). case_id (?f r) = case_id r"
    using well_behaved_id [OF w] by simp
  then have g: "case_by_id (bulk upd hr qs db) i = map_option ?f (case_by_id db i)"
    by (simp add: case_by_id_def bulk_def find_map_same_id)
  have rows: "length (history_rows_of i (bulk upd hr qs db))
      = length (history_rows_of i db)
        + length (case find (\<lambda>c. case_id c = i) qs of None \<Rightarrow> [] | Some c \<Rightarrow> hr c)"
    by (simp add: history_rows_of_def bulk_def new_rows_for [OF w dq])
  show ?thesis
  proof (cases "find (\<lambda>c. case_id c = i) qs")
    case None
    have "map_option ?f (case_by_id db i) = case_by_id db i"
    proof (cases "case_by_id db i")
      case (Some r)
      then have "case_id r = i" using case_by_id_SomeD by blast
      then have "r \<notin> set qs" using None by (auto simp: find_None_iff)
      then show ?thesis using Some by simp
    qed simp
    then show ?thesis using rows None g by simp
  next
    case (Some c)
    then have c: "c \<in> set qs" "case_id c = i"
      by (auto simp: find_Some_iff dest: nth_mem)
    then have "case_by_id db i = Some c"
      using case_by_id_row [OF pk, of c] sub by auto
    then have ch: "(case_by_id (bulk upd hr qs db) i = case_by_id db i) = (upd c = c)"
      using g c(1) by simp
    have "length (hr c) \<le> 1" and "(hr c = []) = (upd c = c)"
      using w c(1) unfolding well_behaved_def by blast+
    then have "length (hr c) = (if upd c = c then 0 else 1)"
      by (cases "hr c") auto
    then show ?thesis using rows Some ch by simp
  qed
qed

lemma count_insert:
  assumes fresh: "case_id c \<notin> case_id ` set (cases db)" and hc: "h_case h = case_id c"
  shows "length (history_rows_of i \<lparr>cases = cases db @ [c], history = history db @ [h]\<rparr>)
       = length (history_rows_of i db)
         + (if case_by_id \<lparr>cases = cases db @ [c], history = history db @ [h]\<rparr> i
               = case_by_id db i then 0 else 1)"
proof (cases "case_id c = i")
  case True
  then have "find (\<lambda>x. case_id x = i) (cases db) = None"
    using image_neq [OF fresh] by (simp add: find_None_iff)
  then show ?thesis
    using True hc by (simp add: history_rows_of_def case_by_id_def find_append_cases)
next
  case False
  then show ?thesis
    using hc by (simp add: history_rows_of_def case_by_id_def find_append_cases split: option.splits)
qed

lemma count_step:
  assumes "case_inv db" and "row_update db db' \<or> row_insert db db'"
  shows "length (history_rows_of i db')
       = length (history_rows_of i db) + (if case_by_id db' i = case_by_id db i then 0 else 1)"
  using assms(2)
proof
  assume "row_update db db'"
  then obtain upd hr qs where "well_behaved upd hr qs" "set qs \<subseteq> set (cases db)"
    "distinct (map case_id qs)" "db' = bulk upd hr qs db"
    unfolding row_update_def by blast
  then show ?thesis using count_update [OF assms(1)] by simp
next
  assume "row_insert db db'"
  then obtain c h where "case_id c \<notin> case_id ` set (cases db)" "h_case h = case_id c"
    "db' = \<lparr>cases = cases db @ [c], history = history db @ [h]\<rparr>"
    unfolding row_insert_def by blast
  then show ?thesis using count_insert by simp
qed

lemma history_count_from:
  "case_inv db \<Longrightarrow>
   length (history_rows_of i (run_operations m ops db))
     = length (history_rows_of i db) + transitions_applied m i ops db"
proof (induction ops arbitrary: db)
  case Nil
  show ?case by simp
next
  case (Cons op ops)
  have pk: "pk_unique db" using Cons.prems by (simp add: case_inv_def)
  note st = count_step [OF Cons.prems apply_operation_step [OF pk, of m op], of i]
  show ?case
    using Cons.IH [OF case_inv_apply [OF Cons.prems], of m op] st by simp
qed

text \<open>
  From the empty tables, after any sequence of operations, a case has as many history
  rows as there were operations that changed it: one for its submission and one for
  every transition applied to it.
\<close>

lemma history_completeness:
  "length (history_rows_of i (run_operations m ops empty_db)) = transitions_applied m i ops empty_db"
  using history_count_from [OF case_inv_empty, of i m ops]
  by (simp add: history_rows_of_def empty_db_def)

section \<open>History rows of status changes\<close>

text \<open>
  Claim C6. Each operation is meant to leave one history row with the status and the
  level before and after. For a freshly submitted case at level 2, solving it
  appends a row whose \<open>from_level\<close> and \<open>to_level\<close> are both null, and so
  does rejecting it; the admin's force-close of the same case, also a change of
  status only, records level 2 in both fields.
\<close>

theorem solve_and_reject_rows_lack_levels:
  "history (snd (SolveCaseView 60 (run_operations spec_case_methods [example_submission] empty_db)
       (Some (example_user 7 LEVEL_2)) 1 Map.empty))
     = [\<lparr>h_case = 1, from_status = None, to_status = OPEN, from_level = None,
         to_level = Some 2, changed_by = Some 5, reason = ''Initial submission'',
         is_auto_escalation = False\<rparr>,
        \<lparr>h_case = 1, from_status = Some OPEN, to_status = SOLVED, from_level = None,
         to_level = None, changed_by = Some 7, reason = [], is_auto_escalation = False\<rparr>]
   \<and> map (\<lambda>h. (from_level h, to_level h))
        (history (snd (RejectCaseView 60
           (run_operations spec_case_methods [example_submission] empty_db)
           (Some (example_user 7 LEVEL_2)) 1 example_reason)))
       = [(None, Some 2), (None, None)]
   \<and> map (\<lambda>h. (from_level h, to_level h))
        (history (fst (force_close_case
           (run_operations spec_case_methods [example_submission] empty_db)
           (example_user 1 LEVEL_1) [1])))
       = [(None, Some 2), (Some 2, Some 2)]"
  by code_simp

end
